theory Spec2Isabelle
  imports Main "HOL-Library.Signed_Division"
begin

section \<open>Machine integers\<close>

text \<open>
  Go's \<open>int\<close> is taken at its width on 64-bit platforms: a 64-bit two's complement
  integer. A value of that type is an integer from \<open>-2^63\<close> up to \<open>2^63 - 1\<close>, and the
  result of every \<open>+\<close>, \<open>-\<close>, \<open>*\<close>, \<open>++\<close> and \<open>--\<close> of the source is brought back into that
  range by \<open>wrap\<close>, as the machine does. Go's \<open>/\<close> overflows for one pair of operands only
  (the least \<open>int\<close> divided by \<open>-1\<close>) and is wrapped as well; \<open>%\<close> and the comparisons
  never leave the range. Slice positions and lengths, which are never negative, are natural
  numbers.
\<close>

definition wrap :: "int \<Rightarrow> int" where
  "wrap x = (x + 2 ^ 63) mod 2 ^ 64 - 2 ^ 63"

section \<open>Errors and panics\<close>

text \<open>
  The package reports failures in two ways. A \<^emph>\<open>returned error\<close> is a value of the Go
  interface \<open>error\<close>: one of the seven package variables of \<open>errors.go\<close>, one of the three
  error structs, or an error that a caller's visitor made up (\<open>VisitorError\<close>, numbered so
  that different failures can be told apart). A \<^emph>\<open>panic\<close> ends the program: an index out
  of range, an integer division by zero, a call of a nil function, or \<open>panic(err)\<close> in one of
  the panicking wrappers.
\<close>

datatype error =
    ErrZeroDims
  | ErrZeroPoint
  | ErrIndexZero
  | ErrIndexSize
  | ErrChangeTooBig
  | ErrPointOutOfSync
  | ErrNilFunction
  | DimsValueError "int list" nat
  | LengthMismatchError string nat nat
  | PointOutOfBoundsError "int list" "int list" nat
  | VisitorError nat

datatype panic = IndexOutOfRange | DivideByZero | NilFunctionCall | PanicError error

section \<open>The Interpreter (doc.go)\<close>

record Interpreter =
  Dims :: "int list"
  Sizes :: "int list"

text \<open>The zero value \<open>Interpreter{}\<close>: both slices nil.\<close>

definition zero_Interpreter :: Interpreter where
  "zero_Interpreter = \<lparr>Dims = [], Sizes = []\<rparr>"

subsection \<open>NewInterpreterSafe\<close>

text \<open>\<open>for i, d := range dims { if d <= 0 { return Interpreter{}, DimsValueError{dims, i} } }\<close>\<close>

fun range_dims :: "int list \<Rightarrow> nat \<Rightarrow> int list \<Rightarrow> error option" where
  "range_dims dims i [] = None"
| "range_dims dims i (d # ds) =
     (if d \<le> 0 then Some (DimsValueError dims i) else range_dims dims (Suc i) ds)"

text \<open>\<open>for i := 1; i < len(sizes); i++ { sizes[i] = sizes[i-1] * dims[i] }\<close>; the slice
  \<open>sizes\<close> was made with the length of \<open>dims\<close>, so both reads are in range. The product is
  not checked for overflow.\<close>

function sizes_loop :: "int list \<Rightarrow> nat \<Rightarrow> int list \<Rightarrow> int list" where
  "sizes_loop dims i sizes =
     (if i < length sizes
      then sizes_loop dims (i + 1) (sizes[i := wrap (sizes ! (i - 1) * dims ! i)])
      else sizes)"
  by pat_completeness auto
termination
  by (relation "measure (\<lambda>(dims, i, sizes). length sizes - i)") auto

declare sizes_loop.simps [simp del]

definition NewInterpreterSafe :: "int list \<Rightarrow> Interpreter \<times> error option" where
  "NewInterpreterSafe dims =
     (if length dims = 0 then (zero_Interpreter, Some ErrZeroDims)
      else case range_dims dims 0 dims of
          Some e \<Rightarrow> (zero_Interpreter, Some e)
        | None \<Rightarrow>
            (\<lparr>Dims = dims,
              Sizes = sizes_loop dims 1 ((replicate (length dims) 0)[0 := dims ! 0])\<rparr>,
             None))"

subsection \<open>CheckPoint, Index\<close>

text \<open>\<open>for i, v := range point { if v < 0 || v >= in.Dims[i] { return PointOutOfBoundsError{...} } }\<close>.
  The read \<open>in.Dims[i]\<close> happens only when \<open>v < 0\<close> is false, and panics when \<open>Dims\<close> is
  shorter than the point.\<close>

fun CheckPoint_range :: "Interpreter \<Rightarrow> int list \<Rightarrow> nat \<Rightarrow> int list \<Rightarrow> panic + error option" where
  "CheckPoint_range itp point i [] = Inr None"
| "CheckPoint_range itp point i (v # vs) =
     (if v < 0 then Inr (Some (PointOutOfBoundsError point (Dims itp) i))
      else if \<not> i < length (Dims itp) then Inl IndexOutOfRange
      else if v \<ge> Dims itp ! i then Inr (Some (PointOutOfBoundsError point (Dims itp) i))
      else CheckPoint_range itp point (Suc i) vs)"

definition CheckPoint :: "Interpreter \<Rightarrow> int list \<Rightarrow> panic + error option" where
  "CheckPoint itp point =
     (if length point = 0 then Inr (Some ErrZeroPoint)
      else if length point \<noteq> length (Sizes itp)
        then Inr (Some (LengthMismatchError ''point'' (length point) (length (Sizes itp))))
      else CheckPoint_range itp point 0 point)"

text \<open>\<open>for i := 1; i < len(in.Sizes); i++ { index += point[i] * in.Sizes[i-1] }\<close>\<close>

function IndexFast_loop :: "Interpreter \<Rightarrow> int list \<Rightarrow> nat \<Rightarrow> int \<Rightarrow> panic + int" where
  "IndexFast_loop itp point i index =
     (if i < length (Sizes itp)
      then (if i < length point
            then IndexFast_loop itp point (i + 1)
                   (wrap (index + wrap (point ! i * Sizes itp ! (i - 1))))
            else Inl IndexOutOfRange)
      else Inr index)"
  by pat_completeness auto
termination
  by (relation "measure (\<lambda>(itp, point, i, index). length (Sizes itp) - i)") auto

declare IndexFast_loop.simps [simp del]

definition IndexFast :: "Interpreter \<Rightarrow> int list \<Rightarrow> panic + int" where
  "IndexFast itp point =
     (if 0 < length point then IndexFast_loop itp point 1 (point ! 0) else Inl IndexOutOfRange)"

definition IndexSafe :: "Interpreter \<Rightarrow> int list \<Rightarrow> panic + (int \<times> error option)" where
  "IndexSafe itp point =
     (case CheckPoint itp point of
        Inl pn \<Rightarrow> Inl pn
      | Inr (Some e) \<Rightarrow> Inr (0, Some e)
      | Inr None \<Rightarrow>
          (case IndexFast itp point of Inl pn \<Rightarrow> Inl pn | Inr index \<Rightarrow> Inr (index, None)))"

subsection \<open>Size, CheckIndex, Point\<close>

definition Size :: "Interpreter \<Rightarrow> panic + int" where
  "Size itp =
     (if length (Sizes itp) = 0 then Inl IndexOutOfRange
      else Inr (Sizes itp ! (length (Sizes itp) - 1)))"

definition CheckIndex :: "Interpreter \<Rightarrow> int \<Rightarrow> panic + error option" where
  "CheckIndex itp index =
     (if index < 0 then Inr (Some ErrIndexZero)
      else case Size itp of
          Inl pn \<Rightarrow> Inl pn
        | Inr s \<Rightarrow> if index \<ge> s then Inr (Some ErrIndexSize) else Inr None)"

text \<open>\<open>for i := len(p) - 1; i >= 1; i-- { p[i] = index / in.Sizes[i-1]; index %= in.Sizes[i-1] }\<close>.
  The second argument is the loop variable \<open>i\<close>; Go's \<open>/\<close> and \<open>%\<close> truncate towards zero
  (\<open>sdiv\<close>, \<open>smod\<close>) and panic on a zero divisor.\<close>

fun PointSafe_loop :: "Interpreter \<Rightarrow> nat \<Rightarrow> int list \<Rightarrow> int \<Rightarrow> panic + (int list \<times> int)" where
  "PointSafe_loop itp 0 p index = Inr (p, index)"
| "PointSafe_loop itp (Suc j) p index =
     (if \<not> j < length (Sizes itp) then Inl IndexOutOfRange
      else if Sizes itp ! j = 0 then Inl DivideByZero
      else PointSafe_loop itp j (p[Suc j := wrap (index sdiv Sizes itp ! j)])
             (index smod Sizes itp ! j))"

definition PointSafe :: "Interpreter \<Rightarrow> int \<Rightarrow> panic + (int list \<times> error option)" where
  "PointSafe itp index =
     (case CheckIndex itp index of
        Inl pn \<Rightarrow> Inl pn
      | Inr (Some e) \<Rightarrow> Inr ([], Some e)
      | Inr None \<Rightarrow>
          (let p = replicate (length (Dims itp)) 0 in
           case PointSafe_loop itp (length p - 1) p index of
             Inl pn \<Rightarrow> Inl pn
           | Inr (p', index') \<Rightarrow>
               if 0 < length p' then Inr (p'[0 := index'], None) else Inl IndexOutOfRange))"

definition Point :: "Interpreter \<Rightarrow> int \<Rightarrow> panic + int list" where
  "Point itp index =
     (case PointSafe itp index of
        Inl pn \<Rightarrow> Inl pn
      | Inr (p, Some e) \<Rightarrow> Inl (PanicError e)
      | Inr (p, None) \<Rightarrow> Inr p)"

subsection \<open>Increment, Decrement\<close>

text \<open>The point is a slice that the callee writes through; the functions return its
  contents after the call next to the returned values.\<close>

function IncrementFast_loop :: "Interpreter \<Rightarrow> nat \<Rightarrow> int list \<Rightarrow> panic + (bool \<times> int list)" where
  "IncrementFast_loop itp i point =
     (if i < length (Dims itp)
      then (if \<not> i < length point then Inl IndexOutOfRange
            else let point1 = point[i := wrap (point ! i + 1)] in
              if point1 ! i < Dims itp ! i then Inr (True, point1)
              else let point2 = point1[i := 0] in
                if i = length (Dims itp) - 1 then Inr (False, point2)
                else IncrementFast_loop itp (i + 1) point2)
      else Inr (True, point))"
  by pat_completeness auto
termination
  by (relation "measure (\<lambda>(itp, i, point). length (Dims itp) - i)") auto

declare IncrementFast_loop.simps [simp del]

definition IncrementFast :: "Interpreter \<Rightarrow> int list \<Rightarrow> panic + (bool \<times> int list)" where
  "IncrementFast itp point = IncrementFast_loop itp 0 point"

definition IncrementSafe :: "Interpreter \<Rightarrow> int list \<Rightarrow> panic + ((bool \<times> error option) \<times> int list)" where
  "IncrementSafe itp point =
     (case CheckPoint itp point of
        Inl pn \<Rightarrow> Inl pn
      | Inr (Some e) \<Rightarrow> Inr ((False, Some e), point)
      | Inr None \<Rightarrow>
          (case IncrementFast itp point of
             Inl pn \<Rightarrow> Inl pn
           | Inr (b, point') \<Rightarrow> Inr ((b, None), point')))"

function DecrementFast_loop :: "Interpreter \<Rightarrow> nat \<Rightarrow> int list \<Rightarrow> panic + (bool \<times> int list)" where
  "DecrementFast_loop itp i point =
     (if i < length (Dims itp)
      then (if \<not> i < length point then Inl IndexOutOfRange
            else let point1 = point[i := wrap (point ! i - 1)] in
              if point1 ! i \<ge> 0 then Inr (True, point1)
              else let point2 = point1[i := wrap (Dims itp ! i - 1)] in
                if i = length (Dims itp) - 1 then Inr (False, point2)
                else DecrementFast_loop itp (i + 1) point2)
      else Inr (True, point))"
  by pat_completeness auto
termination
  by (relation "measure (\<lambda>(itp, i, point). length (Dims itp) - i)") auto

declare DecrementFast_loop.simps [simp del]

definition DecrementFast :: "Interpreter \<Rightarrow> int list \<Rightarrow> panic + (bool \<times> int list)" where
  "DecrementFast itp point = DecrementFast_loop itp 0 point"

definition DecrementSafe :: "Interpreter \<Rightarrow> int list \<Rightarrow> panic + ((bool \<times> error option) \<times> int list)" where
  "DecrementSafe itp point =
     (case CheckPoint itp point of
        Inl pn \<Rightarrow> Inl pn
      | Inr (Some e) \<Rightarrow> Inr ((False, Some e), point)
      | Inr None \<Rightarrow>
          (case DecrementFast itp point of
             Inl pn \<Rightarrow> Inl pn
           | Inr (b, point') \<Rightarrow> Inr ((b, None), point')))"

subsection \<open>IncreaseBy\<close>

text \<open>Go's built-in \<open>copy(dst, src)\<close> overwrites the first \<open>min(len(dst), len(src))\<close>
  elements of \<open>dst\<close>.\<close>

definition copy_slice :: "int list \<Rightarrow> int list \<Rightarrow> int list" where
  "copy_slice dst src =
     (let n = min (length dst) (length src) in take n src @ drop n dst)"

definition IncreaseBySafe :: "Interpreter \<Rightarrow> int list \<Rightarrow> int \<Rightarrow> panic + ((bool \<times> error option) \<times> int list)" where
  "IncreaseBySafe itp point change =
     (if change = 0 then Inr ((True, None), point)
      else if change = 1 then IncrementSafe itp point
      else if change = - 1 then DecrementSafe itp point
      else case IndexSafe itp point of
          Inl pn \<Rightarrow> Inl pn
        | Inr (index, Some e) \<Rightarrow> Inr ((False, Some e), point)
        | Inr (index, None) \<Rightarrow>
            (case Size itp of
               Inl pn \<Rightarrow> Inl pn
             | Inr s \<Rightarrow>
                 if change \<ge> s then Inr ((False, Some ErrChangeTooBig), point)
                 else if change \<le> wrap (- s) then Inr ((False, Some ErrChangeTooBig), point)
                 else let newIndex = wrap (index + change) in
                   if newIndex < 0 \<or> newIndex \<ge> s then Inr ((False, None), point)
                   else (case Point itp newIndex of
                           Inl pn \<Rightarrow> Inl pn
                         | Inr newPoint \<Rightarrow> Inr ((True, None), copy_slice point newPoint))))"

section \<open>The traversal engine (mapapply.go)\<close>

record ThreadingOptions =
  OpsPerThread :: int
  NumThreads :: int

text \<open>A visitor is the function \<open>fn\<close> handed to \<open>MapApplySafe\<close>: it is given the point and
  the index and returns \<open>nil\<close> or an error. It is a function of its arguments: it does not
  write to the point it is handed. A nil \<open>fn\<close> is \<open>None\<close>.\<close>

type_synonym visitor = "int list \<Rightarrow> int \<Rightarrow> error option"

text \<open>The two function values chosen by \<open>useFast\<close>.\<close>

definition increment :: "bool \<Rightarrow> Interpreter \<Rightarrow> int list \<Rightarrow> panic + ((bool \<times> error option) \<times> int list)" where
  "increment useFast itp point =
     (if useFast
      then (case IncrementFast itp point of
              Inl pn \<Rightarrow> Inl pn
            | Inr (b, point') \<Rightarrow> Inr ((b, None), point'))
      else IncrementSafe itp point)"

definition makePoint :: "bool \<Rightarrow> Interpreter \<Rightarrow> int \<Rightarrow> panic + (int list \<times> error option)" where
  "makePoint useFast itp index =
     (if useFast
      then (case Point itp index of Inl pn \<Rightarrow> Inl pn | Inr p \<Rightarrow> Inr (p, None))
      else PointSafe itp index)"

text \<open>``fill in threading options'': nil options become one thread that takes everything
  in one batch, and fields below 1 are set to 1.\<close>

definition fill_options :: "Interpreter \<Rightarrow> ThreadingOptions option \<Rightarrow> panic + ThreadingOptions" where
  "fill_options itp options =
     (case options of
        None \<Rightarrow>
          (case Size itp of
             Inl pn \<Rightarrow> Inl pn
           | Inr s \<Rightarrow> Inr \<lparr>OpsPerThread = s, NumThreads = 1\<rparr>)
      | Some opts \<Rightarrow>
          Inr \<lparr>OpsPerThread = (if OpsPerThread opts < 1 then 1 else OpsPerThread opts),
               NumThreads = (if NumThreads opts < 1 then 1 else NumThreads opts)\<rparr>)"

text \<open>
  Every goroutine runs the same closure. Its local variables are a \<open>worker\<close>; \<open>wpc\<close> says
  where it stands: about to take the lock at the top of the outer loop (\<open>AtLock\<close>), inside
  the inner loop with \<open>localIndex < localEnd\<close> checked (\<open>InBatch\<close>), or returned.

  The variables shared by the goroutines (\<open>index\<close>, \<open>point\<close>, \<open>err\<close> of the source) are only
  touched between \<open>mux.Lock()\<close> and \<open>mux.Unlock()\<close>, so one pass through the locked section
  is one atomic step. The inner loop works on the worker's own copy of the point; one of
  its iterations is one step. \<open>calls\<close> logs the invocations of the visitor in the order
  they happen.
\<close>

datatype pc = AtLock | InBatch | Returned

record worker =
  wpc :: pc
  localErr :: "error option"
  localIndex :: int
  localPoint :: "int list"
  localEnd :: int

record traversal =
  sharedIndex :: int
  sharedPoint :: "int list"
  sharedErr :: "error option"
  workers :: "worker list"
  calls :: "(int list \<times> int) list"

definition set_worker :: "nat \<Rightarrow> worker \<Rightarrow> traversal \<Rightarrow> traversal" where
  "set_worker t w st = st\<lparr>workers := (workers st)[t := w]\<rparr>"

text \<open>After \<open>mux.Unlock()\<close>: clamp \<open>localEnd\<close> to the size and test the inner loop's
  condition for the first time.\<close>

definition enter_batch :: "int \<Rightarrow> nat \<Rightarrow> worker \<Rightarrow> traversal \<Rightarrow> traversal" where
  "enter_batch s t w st =
     (let w1 = (if localEnd w > s then w\<lparr>localEnd := s\<rparr> else w) in
      set_worker t (w1\<lparr>wpc := (if localIndex w1 < localEnd w1 then InBatch else AtLock)\<rparr>) st)"

text \<open>The locked section at the top of the outer loop, run by worker \<open>t\<close>.\<close>

definition lock_step :: "bool \<Rightarrow> Interpreter \<Rightarrow> ThreadingOptions \<Rightarrow> nat \<Rightarrow> traversal \<Rightarrow> panic + traversal" where
  "lock_step useFast itp options t st =
     (let w = workers st ! t in
      if sharedErr st \<noteq> None then Inr (set_worker t (w\<lparr>wpc := Returned\<rparr>) st)
      else if localErr w \<noteq> None
        then Inr (set_worker t (w\<lparr>wpc := Returned\<rparr>) (st\<lparr>sharedErr := localErr w\<rparr>))
      else case Size itp of
          Inl pn \<Rightarrow> Inl pn
        | Inr s \<Rightarrow>
            if sharedIndex st \<ge> s then Inr (set_worker t (w\<lparr>wpc := Returned\<rparr>) st)
            else
              let w1 = w\<lparr>localIndex := sharedIndex st, localPoint := sharedPoint st\<rparr>;
                  st1 = st\<lparr>sharedIndex := wrap (sharedIndex st + OpsPerThread options)\<rparr>;
                  w2 = w1\<lparr>localEnd := sharedIndex st1\<rparr>
              in
                if sharedIndex st1 < s then
                  (if OpsPerThread options > 1 then
                     (case makePoint useFast itp (sharedIndex st1) of
                        Inl pn \<Rightarrow> Inl pn
                      | Inr (p, e) \<Rightarrow>
                          let st2 = st1\<lparr>sharedPoint := p, sharedErr := e\<rparr> in
                          if e \<noteq> None then Inr (set_worker t (w2\<lparr>wpc := Returned\<rparr>) st2)
                          else Inr (enter_batch s t w2 st2))
                   else
                     (case increment useFast itp (sharedPoint st1) of
                        Inl pn \<Rightarrow> Inl pn
                      | Inr ((cont, e), p) \<Rightarrow>
                          let st2 = st1\<lparr>sharedPoint := p, sharedErr := e\<rparr> in
                          if e \<noteq> None then Inr (set_worker t (w2\<lparr>wpc := Returned\<rparr>) st2)
                          else if \<not> cont
                            then Inr (set_worker t (w2\<lparr>wpc := Returned\<rparr>)
                                        (st2\<lparr>sharedErr := Some ErrPointOutOfSync\<rparr>))
                          else Inr (enter_batch s t w2 st2)))
                else Inr (enter_batch s t w2 st1))"

text \<open>One iteration of the inner loop \<open>for localIndex < localEnd\<close>, run by worker \<open>t\<close>.\<close>

definition batch_step :: "bool \<Rightarrow> Interpreter \<Rightarrow> visitor option \<Rightarrow> nat \<Rightarrow> traversal \<Rightarrow> panic + traversal" where
  "batch_step useFast itp fn t st =
     (let w = workers st ! t in
      case fn of
        None \<Rightarrow> Inl NilFunctionCall
      | Some f \<Rightarrow>
          let r = f (localPoint w) (localIndex w);
              st1 = st\<lparr>calls := calls st @ [(localPoint w, localIndex w)]\<rparr>;
              w1 = (if r \<noteq> None then w\<lparr>localErr := r\<rparr> else w);
              w2 = w1\<lparr>localIndex := wrap (localIndex w1 + 1)\<rparr>
          in
            if localIndex w2 = localEnd w2 then Inr (set_worker t (w2\<lparr>wpc := AtLock\<rparr>) st1)
            else
              (case increment useFast itp (localPoint w2) of
                 Inl pn \<Rightarrow> Inl pn
               | Inr ((cont, e), p) \<Rightarrow>
                   let w3 = w2\<lparr>localPoint := p\<rparr> in
                   if e \<noteq> None then Inr (set_worker t (w3\<lparr>localErr := e, wpc := AtLock\<rparr>) st1)
                   else if \<not> cont
                     then Inr (set_worker t (w3\<lparr>localErr := Some ErrPointOutOfSync, wpc := AtLock\<rparr>) st1)
                   else Inr (set_worker t
                               (w3\<lparr>wpc := (if localIndex w3 < localEnd w3 then InBatch else AtLock)\<rparr>)
                               st1)))"

text \<open>A step of worker \<open>t\<close>; a worker that has returned, or a number that names no worker,
  changes nothing.\<close>

definition step :: "bool \<Rightarrow> Interpreter \<Rightarrow> visitor option \<Rightarrow> ThreadingOptions \<Rightarrow> nat \<Rightarrow> traversal \<Rightarrow> panic + traversal" where
  "step useFast itp fn options t st =
     (if t < length (workers st)
      then (case wpc (workers st ! t) of
              AtLock \<Rightarrow> lock_step useFast itp options t st
            | InBatch \<Rightarrow> batch_step useFast itp fn t st
            | Returned \<Rightarrow> Inr st)
      else Inr st)"

text \<open>A schedule is the order in which the workers take their steps; every interleaving
  of the goroutines is a schedule.\<close>

fun run_schedule :: "bool \<Rightarrow> Interpreter \<Rightarrow> visitor option \<Rightarrow> ThreadingOptions \<Rightarrow> nat list \<Rightarrow> traversal \<Rightarrow> panic + traversal" where
  "run_schedule useFast itp fn options [] st = Inr st"
| "run_schedule useFast itp fn options (t # ts) st =
     (case step useFast itp fn options t st of
        Inl pn \<Rightarrow> Inl pn
      | Inr st' \<Rightarrow> run_schedule useFast itp fn options ts st')"

text \<open>The state when the goroutines are started: \<open>var index int\<close>,
  \<open>point := make([]int, len(in.Dims))\<close>, \<open>var err error\<close>, every local variable zero.\<close>

definition initial :: "Interpreter \<Rightarrow> ThreadingOptions \<Rightarrow> traversal" where
  "initial itp options =
     \<lparr>sharedIndex = 0, sharedPoint = replicate (length (Dims itp)) 0, sharedErr = None,
      workers = replicate (nat (NumThreads options))
        \<lparr>wpc = AtLock, localErr = None, localIndex = 0, localPoint = [], localEnd = 0\<rparr>,
      calls = []\<rparr>"

definition all_returned :: "traversal \<Rightarrow> bool" where
  "all_returned st = list_all (\<lambda>w. wpc w = Returned) (workers st)"

text \<open>
  \<open>generalMapApply\<close> under a schedule. \<open>wg.Wait()\<close> lets the call return once every worker
  has returned; the result is then \<open>Some\<close> of the returned error and the log of the visitor's
  invocations. \<open>None\<close> says that workers are still running when the schedule ends.
\<close>

definition generalMapApply :: "Interpreter \<Rightarrow> visitor option \<Rightarrow> ThreadingOptions option \<Rightarrow> bool \<Rightarrow> nat list \<Rightarrow> panic + (error option \<times> (int list \<times> int) list) option" where
  "generalMapApply itp fn options useFast sched =
     (if \<not> useFast \<and> fn = None then Inr (Some (Some ErrNilFunction, []))
      else case fill_options itp options of
          Inl pn \<Rightarrow> Inl pn
        | Inr opts \<Rightarrow>
            (case run_schedule useFast itp fn opts sched (initial itp opts) of
               Inl pn \<Rightarrow> Inl pn
             | Inr st \<Rightarrow>
                 if all_returned st then Inr (Some (sharedErr st, calls st)) else Inr None))"

definition MapApplySafe :: "Interpreter \<Rightarrow> visitor option \<Rightarrow> ThreadingOptions option \<Rightarrow> nat list \<Rightarrow> panic + (error option \<times> (int list \<times> int) list) option" where
  "MapApplySafe itp fn options sched = generalMapApply itp fn options False sched"

section \<open>A test driver\<close>

text \<open>\<open>n\<close> successive calls of \<open>IncrementSafe\<close> on one point buffer: the returned values and
  the content of the buffer after each call.\<close>

fun increment_run :: "Interpreter \<Rightarrow> nat \<Rightarrow> int list \<Rightarrow> panic + ((bool \<times> error option) \<times> int list) list" where
  "increment_run itp 0 p = Inr []"
| "increment_run itp (Suc n) p =
     (case IncrementSafe itp p of
        Inl pn \<Rightarrow> Inl pn
      | Inr (r, p') \<Rightarrow>
          (case increment_run itp n p' of
             Inl pn \<Rightarrow> Inl pn
           | Inr rs \<Rightarrow> Inr ((r, p') # rs)))"

section \<open>The mixed-radix reading of a shape\<close>

text \<open>
  The notions the proofs are stated in; the sums and products here are those of the
  integers, not of the machine. \<open>stride dims j\<close> is the product of the first \<open>j\<close>
  dimensions; \<open>encode\<close> and \<open>decode\<close> are the mixed-radix value of a point and the digits
  of an index. \<open>built dims\<close> is the Interpreter that \<open>NewInterpreterSafe\<close> builds for \<open>dims\<close>:
  its \<open>Sizes[j]\<close> is \<open>stride dims (j + 1)\<close> as the machine computes it. \<open>interp_of dims\<close>
  holds the products themselves, and is what is built when the product of all dimensions
  is below \<open>2^63\<close>.
\<close>

definition stride :: "int list \<Rightarrow> nat \<Rightarrow> int" where
  "stride dims j = prod_list (take j dims)"

definition sizes_of :: "int list \<Rightarrow> int list" where
  "sizes_of dims = map (\<lambda>j. stride dims (Suc j)) [0..<length dims]"

definition wsizes :: "int list \<Rightarrow> int list" where
  "wsizes dims = map (\<lambda>j. wrap (stride dims (Suc j))) [0..<length dims]"

definition positive :: "int list \<Rightarrow> bool" where
  "positive dims \<longleftrightarrow> dims \<noteq> [] \<and> (\<forall>d\<in>set dims. 0 < d)"

definition interp_of :: "int list \<Rightarrow> Interpreter" where
  "interp_of dims = \<lparr>Dims = dims, Sizes = sizes_of dims\<rparr>"

definition built :: "int list \<Rightarrow> Interpreter" where
  "built dims = \<lparr>Dims = dims, Sizes = wsizes dims\<rparr>"

definition in_shape :: "int list \<Rightarrow> int list \<Rightarrow> bool" where
  "in_shape dims p \<longleftrightarrow> length p = length dims \<and> (\<forall>j<length dims. 0 \<le> p ! j \<and> p ! j < dims ! j)"

definition encode :: "int list \<Rightarrow> int list \<Rightarrow> int" where
  "encode dims p = (\<Sum>j<length dims. p ! j * stride dims j)"

definition decode :: "int list \<Rightarrow> int \<Rightarrow> int list" where
  "decode dims x = map (\<lambda>j. (x mod stride dims (Suc j)) div stride dims j) [0..<length dims]"

definition total :: "int list \<Rightarrow> int" where
  "total dims = stride dims (length dims)"

definition tail :: "int list \<Rightarrow> int list \<Rightarrow> nat \<Rightarrow> int" where
  "tail dims p i = (\<Sum>j = i..<length dims. p ! j * stride dims j)"

section \<open>Notions for the traversal proofs\<close>

text \<open>
  The batches start at the multiples of \<open>OpsPerThread\<close> below the size; the last of them
  ends at \<open>last_batch_end\<close>, the least multiple of \<open>OpsPerThread\<close> that is not below the
  size. The shared index is moved to the end of a batch when the batch is claimed, so
  \<open>no_overflow\<close> says that neither the size nor any value of the shared index leaves the
  range of \<open>int\<close>.
\<close>

definition last_batch_end :: "int \<Rightarrow> int \<Rightarrow> int" where
  "last_batch_end n ops = ((n + ops - 1) div ops) * ops"

definition no_overflow :: "int list \<Rightarrow> ThreadingOptions \<Rightarrow> bool" where
  "no_overflow dims opts \<longleftrightarrow>
     total dims < 2 ^ 63 \<and> last_batch_end (total dims) (OpsPerThread opts) < 2 ^ 63"

text \<open>
  What holds of every reachable state of a traversal over a valid shape: the shared index
  is a multiple of \<open>OpsPerThread\<close>, the shared point is the point of the shared index while
  that index is in range, and a worker inside a batch holds the point of its own index,
  which lies inside its batch.
\<close>

definition batch_ok :: "int list \<Rightarrow> worker \<Rightarrow> bool" where
  "batch_ok dims w \<longleftrightarrow>
     (wpc w = InBatch \<longrightarrow>
        0 \<le> localIndex w \<and> localIndex w < localEnd w \<and> localEnd w \<le> total dims \<and>
        localPoint w = decode dims (localIndex w))"

definition wf_state :: "int list \<Rightarrow> ThreadingOptions \<Rightarrow> traversal \<Rightarrow> bool" where
  "wf_state dims opts st \<longleftrightarrow>
     0 \<le> sharedIndex st \<and> OpsPerThread opts dvd sharedIndex st \<and>
     (sharedIndex st < total dims \<longrightarrow> sharedPoint st = decode dims (sharedIndex st)) \<and>
     (\<forall>w\<in>set (workers st). batch_ok dims w)"

text \<open>A worker is \<open>live\<close> until it has returned. The three states a step can lead to:
  the worker returns; it claims the batch that starts at the shared index; it visits its
  current index and moves on.\<close>

definition live :: "traversal \<Rightarrow> nat \<Rightarrow> bool" where
  "live st t \<longleftrightarrow> t < length (workers st) \<and> wpc (workers st ! t) \<noteq> Returned"

definition returned :: "nat \<Rightarrow> traversal \<Rightarrow> traversal" where
  "returned t st = set_worker t ((workers st ! t)\<lparr>wpc := Returned\<rparr>) st"

definition claimed :: "int list \<Rightarrow> ThreadingOptions \<Rightarrow> nat \<Rightarrow> traversal \<Rightarrow> traversal" where
  "claimed dims opts t st =
     set_worker t
       ((workers st ! t)\<lparr>localIndex := sharedIndex st, localPoint := sharedPoint st,
          localEnd := min (sharedIndex st + OpsPerThread opts) (total dims), wpc := InBatch\<rparr>)
       (st\<lparr>sharedIndex := sharedIndex st + OpsPerThread opts,
           sharedPoint := (if sharedIndex st + OpsPerThread opts < total dims
                           then decode dims (sharedIndex st + OpsPerThread opts)
                           else sharedPoint st),
           sharedErr := None\<rparr>)"

definition visited :: "int list \<Rightarrow> visitor \<Rightarrow> nat \<Rightarrow> traversal \<Rightarrow> traversal" where
  "visited dims f t st =
     set_worker t
       ((workers st ! t)\<lparr>
          localErr := (case f (localPoint (workers st ! t)) (localIndex (workers st ! t)) of
                         None \<Rightarrow> localErr (workers st ! t) | Some e \<Rightarrow> Some e),
          localIndex := localIndex (workers st ! t) + 1,
          localPoint := (if localIndex (workers st ! t) + 1 = localEnd (workers st ! t)
                         then localPoint (workers st ! t)
                         else decode dims (localIndex (workers st ! t) + 1)),
          wpc := (if localIndex (workers st ! t) + 1 = localEnd (workers st ! t)
                  then AtLock else InBatch)\<rparr>)
       (st\<lparr>calls := calls st @ [(localPoint (workers st ! t), localIndex (workers st ! t))]\<rparr>)"

text \<open>A bound on the steps still to come: three for every index not yet claimed, two
  for every index a worker has claimed and not yet visited, one for every live worker.\<close>

definition worker_measure :: "worker \<Rightarrow> nat" where
  "worker_measure w =
     (case wpc w of
        Returned \<Rightarrow> 0
      | AtLock \<Rightarrow> 1
      | InBatch \<Rightarrow> 1 + 2 * nat (localEnd w - localIndex w))"

definition measure_state :: "int list \<Rightarrow> traversal \<Rightarrow> nat" where
  "measure_state dims st =
     3 * nat (total dims - sharedIndex st) + sum_list (map worker_measure (workers st))"

text \<open>\<open>visits st i\<close> counts how often index \<open>i\<close> has been visited or is waiting in some
  worker's batch: it is 1 for the claimed indices and 0 for the others, whatever the
  visitor returns (\<open>visit_inv\<close>). While no call of the visitor fails, no error is recorded
  and a worker returns only when every index has been claimed (\<open>once_inv\<close>).\<close>

definition pend :: "worker \<Rightarrow> int \<Rightarrow> nat" where
  "pend w i = (if wpc w = InBatch \<and> localIndex w \<le> i \<and> i < localEnd w then 1 else 0)"

definition visits :: "traversal \<Rightarrow> int \<Rightarrow> nat" where
  "visits st i = count_list (map snd (calls st)) i + sum_list (map (\<lambda>w. pend w i) (workers st))"

definition visit_inv :: "int list \<Rightarrow> ThreadingOptions \<Rightarrow> traversal \<Rightarrow> bool" where
  "visit_inv dims opts st \<longleftrightarrow>
     wf_state dims opts st \<and>
     (\<forall>i. visits st i = (if 0 \<le> i \<and> i < sharedIndex st \<and> i < total dims then 1 else 0)) \<and>
     (\<forall>c\<in>set (calls st). fst c = decode dims (snd c) \<and> 0 \<le> snd c \<and> snd c < total dims)"

definition once_inv :: "int list \<Rightarrow> ThreadingOptions \<Rightarrow> traversal \<Rightarrow> bool" where
  "once_inv dims opts st \<longleftrightarrow>
     visit_inv dims opts st \<and> sharedErr st = None \<and>
     (\<forall>w\<in>set (workers st). localErr w = None \<and> (wpc w = Returned \<longrightarrow> total dims \<le> sharedIndex st))"

text \<open>
  For a single worker and any visitor. \<open>last_failure F a k\<close> is the error of the last
  failing index among \<open>a, \<dots>, a + k - 1\<close>: what \<open>localErr\<close> holds after the worker has
  visited these indices of a batch that starts at \<open>a\<close>. The log lists the indices in
  order; no call failed before the current batch; and \<open>localErr\<close>, then \<open>err\<close>, hold the
  last failure of the current batch.
\<close>

fun last_failure :: "(int \<Rightarrow> error option) \<Rightarrow> int \<Rightarrow> nat \<Rightarrow> error option" where
  "last_failure F a 0 = None"
| "last_failure F a (Suc k) =
     (case F (a + int k) of Some e \<Rightarrow> Some e | None \<Rightarrow> last_failure F a k)"

definition in_order :: "int list \<Rightarrow> (int list \<times> int) list \<Rightarrow> bool" where
  "in_order dims cs \<longleftrightarrow> cs = map (\<lambda>k. (decode dims (int k), int k)) [0..<length cs]"

definition clean :: "int list \<Rightarrow> visitor \<Rightarrow> int \<Rightarrow> bool" where
  "clean dims f b \<longleftrightarrow> (\<forall>i. 0 \<le> i \<and> i < b \<longrightarrow> f (decode dims i) i = None)"

definition batch_err :: "int list \<Rightarrow> visitor \<Rightarrow> ThreadingOptions \<Rightarrow> traversal \<Rightarrow> error option \<Rightarrow> bool" where
  "batch_err dims f opts st e \<longleftrightarrow>
     0 \<le> sharedIndex st - OpsPerThread opts \<and>
     sharedIndex st - OpsPerThread opts \<le> int (length (calls st)) \<and>
     clean dims f (sharedIndex st - OpsPerThread opts) \<and>
     e = last_failure (\<lambda>i. f (decode dims i) i) (sharedIndex st - OpsPerThread opts)
           (nat (int (length (calls st)) - (sharedIndex st - OpsPerThread opts)))"

definition single_inv :: "int list \<Rightarrow> visitor \<Rightarrow> ThreadingOptions \<Rightarrow> traversal \<Rightarrow> bool" where
  "single_inv dims f opts st \<longleftrightarrow>
     wf_state dims opts st \<and> length (workers st) = 1 \<and> in_order dims (calls st) \<and>
     OpsPerThread opts dvd sharedIndex st \<and>
     (wpc (workers st ! 0) = AtLock \<longrightarrow>
        sharedErr st = None \<and>
        int (length (calls st)) = min (sharedIndex st) (total dims) \<and>
        (if localErr (workers st ! 0) = None then clean dims f (int (length (calls st)))
         else batch_err dims f opts st (localErr (workers st ! 0)))) \<and>
     (wpc (workers st ! 0) = InBatch \<longrightarrow>
        sharedErr st = None \<and>
        localIndex (workers st ! 0) = int (length (calls st)) \<and>
        localEnd (workers st ! 0) = min (sharedIndex st) (total dims) \<and>
        batch_err dims f opts st (localErr (workers st ! 0))) \<and>
     (wpc (workers st ! 0) = Returned \<longrightarrow>
        (if sharedErr st = None
         then int (length (calls st)) = total dims \<and> clean dims f (total dims)
         else int (length (calls st)) = min (sharedIndex st) (total dims) \<and>
              batch_err dims f opts st (sharedErr st)))"

section \<open>Wrapping\<close>

lemma wrap_id: "- (2 ^ 63) \<le> x \<Longrightarrow> x < 2 ^ 63 \<Longrightarrow> wrap x = x"
  by (simp add: wrap_def)

lemma wrap_bounds: "- (2 ^ 63) \<le> wrap x \<and> wrap x < 2 ^ 63"
proof -
  have "0 \<le> (x + 2 ^ 63) mod 2 ^ 64" "(x + 2 ^ 63) mod 2 ^ 64 < (2 ^ 64 :: int)"
    by simp_all
  then show ?thesis by (simp add: wrap_def)
qed

lemma wrap_mod: "wrap x mod 2 ^ 64 = x mod 2 ^ 64"
proof -
  have "wrap x mod 2 ^ 64 = ((x + 2 ^ 63) mod 2 ^ 64 - 2 ^ 63) mod 2 ^ 64"
    by (simp add: wrap_def)
  also have "\<dots> = (x + 2 ^ 63 - 2 ^ 63) mod 2 ^ 64"
    by (rule mod_diff_left_eq)
  finally show ?thesis by simp
qed

lemma wrap_cong: "x mod 2 ^ 64 = y mod 2 ^ 64 \<Longrightarrow> wrap x = wrap y"
proof -
  assume "x mod 2 ^ 64 = y mod 2 ^ 64"
  then have "(x mod 2 ^ 64 + 2 ^ 63) mod 2 ^ 64 = (y mod 2 ^ 64 + 2 ^ 63) mod 2 ^ 64"
    by simp
  then have "(x + 2 ^ 63) mod 2 ^ 64 = (y + 2 ^ 63) mod 2 ^ 64"
    by (simp only: mod_add_left_eq)
  then show ?thesis by (simp add: wrap_def)
qed

lemma wrap_mult_wrap: "wrap (wrap a * b) = wrap (a * b)"
proof (rule wrap_cong)
  have "(wrap a * b) mod 2 ^ 64 = (wrap a mod 2 ^ 64 * b) mod 2 ^ 64"
    by (simp only: mod_mult_left_eq)
  also have "\<dots> = (a mod 2 ^ 64 * b) mod 2 ^ 64"
    by (simp only: wrap_mod)
  also have "\<dots> = (a * b) mod 2 ^ 64"
    by (simp only: mod_mult_left_eq)
  finally show "(wrap a * b) mod 2 ^ 64 = (a * b) mod 2 ^ 64" .
qed

lemma wrap_add_wrap: "wrap (wrap a + wrap b) = wrap (a + b)"
proof (rule wrap_cong)
  have "(wrap a + wrap b) mod 2 ^ 64 = (wrap a mod 2 ^ 64 + wrap b mod 2 ^ 64) mod 2 ^ 64"
    by (simp only: mod_add_eq)
  also have "\<dots> = (a mod 2 ^ 64 + b mod 2 ^ 64) mod 2 ^ 64"
    by (simp only: wrap_mod)
  also have "\<dots> = (a + b) mod 2 ^ 64"
    by (simp only: mod_add_eq)
  finally show "(wrap a + wrap b) mod 2 ^ 64 = (a + b) mod 2 ^ 64" .
qed

lemma wrap_add_left: "wrap (wrap a + b) = wrap (a + b)"
proof (rule wrap_cong)
  have "(wrap a + b) mod 2 ^ 64 = (wrap a mod 2 ^ 64 + b) mod 2 ^ 64"
    by (simp only: mod_add_left_eq)
  also have "\<dots> = (a mod 2 ^ 64 + b) mod 2 ^ 64"
    by (simp only: wrap_mod)
  also have "\<dots> = (a + b) mod 2 ^ 64"
    by (simp only: mod_add_left_eq)
  finally show "(wrap a + b) mod 2 ^ 64 = (a + b) mod 2 ^ 64" .
qed

lemma wrap_mult_right_mod: "(c * wrap a) mod 2 ^ 64 = (c * a) mod 2 ^ 64"
proof -
  have "(c * wrap a) mod 2 ^ 64 = (c * (wrap a mod 2 ^ 64)) mod 2 ^ 64"
    by (simp only: mod_mult_right_eq)
  also have "\<dots> = (c * (a mod 2 ^ 64)) mod 2 ^ 64"
    by (simp only: wrap_mod)
  also have "\<dots> = (c * a) mod 2 ^ 64"
    by (simp only: mod_mult_right_eq)
  finally show ?thesis .
qed

lemma sum_mod_cong:
  fixes f g :: "nat \<Rightarrow> int"
  assumes "\<And>j. j \<in> A \<Longrightarrow> f j mod m = g j mod m"
  shows "sum f A mod m = sum g A mod m"
proof -
  have "sum f A mod m = (\<Sum>j\<in>A. f j mod m) mod m"
    by (simp only: mod_sum_eq)
  also have "(\<Sum>j\<in>A. f j mod m) = (\<Sum>j\<in>A. g j mod m)"
    using assms by (intro sum.cong) simp_all
  also have "(\<Sum>j\<in>A. g j mod m) mod m = sum g A mod m"
    by (simp only: mod_sum_eq)
  finally show ?thesis .
qed

section \<open>Construction\<close>

lemma stride_0 [simp]: "stride dims 0 = 1"
  by (simp add: stride_def)

lemma stride_Suc: "j < length dims \<Longrightarrow> stride dims (Suc j) = stride dims j * dims ! j"
  by (simp add: stride_def take_Suc_conv_app_nth)

lemma sizes_loop_spec:
  "length sizes = length dims \<Longrightarrow> 0 < i \<Longrightarrow> i \<le> length dims \<Longrightarrow>
   (\<forall>j<i. sizes ! j = wrap (stride dims (Suc j))) \<Longrightarrow>
   sizes_loop dims i sizes = wsizes dims"
proof (induction dims i sizes rule: sizes_loop.induct)
  case (1 dims i sizes)
  show ?case
  proof (cases "i < length sizes")
    case True
    let ?s = "sizes[i := wrap (sizes ! (i - 1) * dims ! i)]"
    have prev: "sizes ! (i - 1) = wrap (stride dims i)"
      using "1.prems" by (cases i) auto
    have "wrap (sizes ! (i - 1) * dims ! i) = wrap (wrap (stride dims i) * dims ! i)"
      by (simp only: prev)
    also have "\<dots> = wrap (stride dims i * dims ! i)"
      by (rule wrap_mult_wrap)
    also have "\<dots> = wrap (stride dims (Suc i))"
      using True "1.prems" by (simp add: stride_Suc)
    finally have new: "wrap (sizes ! (i - 1) * dims ! i) = wrap (stride dims (Suc i))" .
    have "\<forall>j<i + 1. ?s ! j = wrap (stride dims (Suc j))"
    proof (intro allI impI)
      fix j assume "j < i + 1"
      then consider "j < i" | "j = i" by linarith
      then show "?s ! j = wrap (stride dims (Suc j))"
      proof cases
        case 1 then show ?thesis using "1.prems" by simp
      next
        case 2 then show ?thesis using True new by simp
      qed
    qed
    then have "sizes_loop dims (i + 1) ?s = wsizes dims"
      using "1.IH" [OF True] True "1.prems" by simp
    then show ?thesis using True by (subst sizes_loop.simps) simp
  next
    case False
    then have "i = length dims" using "1.prems" by simp
    then have "sizes = wsizes dims"
      using "1.prems" by (intro nth_equalityI) (auto simp: wsizes_def)
    then show ?thesis using False by (subst sizes_loop.simps) simp
  qed
qed

lemma range_dims_None:
  "range_dims dims i ds = None \<longleftrightarrow> (\<forall>d\<in>set ds. 0 < d)"
  by (induction ds arbitrary: i) auto

lemma range_dims_Some:
  "range_dims dims i ds = Some e \<longleftrightarrow>
   (\<exists>k<length ds. e = DimsValueError dims (i + k) \<and> ds ! k \<le> 0 \<and> (\<forall>j<k. 0 < ds ! j))"
proof (induction ds arbitrary: i)
  case Nil
  then show ?case by simp
next
  case (Cons d ds)
  show ?case
  proof (cases "d \<le> 0")
    case True
    then show ?thesis by (auto intro: exI [of _ 0]) (metis not_less_zero nth_Cons_0 not_le zero_less_iff_neq_zero)
  next
    case False
    have "(\<exists>k<length ds. e = DimsValueError dims (Suc i + k) \<and> ds ! k \<le> 0 \<and> (\<forall>j<k. 0 < ds ! j))
      \<longleftrightarrow> (\<exists>k<length (d # ds). e = DimsValueError dims (i + k) \<and> (d # ds) ! k \<le> 0 \<and> (\<forall>j<k. 0 < (d # ds) ! j))"
      (is "?L \<longleftrightarrow> ?R")
    proof
      assume ?L
      then obtain k where k: "k < length ds" "e = DimsValueError dims (Suc i + k)" "ds ! k \<le> 0" "\<forall>j<k. 0 < ds ! j"
        by blast
      have "\<forall>j<Suc k. 0 < (d # ds) ! j"
        using k(4) False by (auto simp: nth_Cons split: nat.splits)
      then show ?R using k by (intro exI [of _ "Suc k"]) simp
    next
      assume ?R
      then obtain k where k: "k < length (d # ds)" "e = DimsValueError dims (i + k)" "(d # ds) ! k \<le> 0" "\<forall>j<k. 0 < (d # ds) ! j"
        by blast
      from k(3) False obtain k' where k': "k = Suc k'" by (cases k) auto
      have "\<forall>j<k'. 0 < ds ! j" using k(4) k' by (metis Suc_less_eq nth_Cons_Suc)
      then show ?L using k k' by (intro exI [of _ k']) simp
    qed
    then show ?thesis using False Cons.IH [of "Suc i"] by simp
  qed
qed

lemma NewInterpreterSafe_ok:
  "NewInterpreterSafe dims = (itp, None) \<longleftrightarrow>
   positive dims \<and>
   itp = \<lparr>Dims = dims, Sizes = sizes_loop dims 1 ((replicate (length dims) 0)[0 := dims ! 0])\<rparr>"
proof (cases "dims = []")
  case True
  then show ?thesis by (simp add: NewInterpreterSafe_def positive_def)
next
  case False
  have "range_dims dims 0 dims = None \<longleftrightarrow> (\<forall>d\<in>set dims. 0 < d)"
    by (rule range_dims_None)
  then show ?thesis using False
    by (cases "range_dims dims 0 dims") (auto simp: NewInterpreterSafe_def positive_def)
qed

lemma sizes_loop_built:
  assumes "positive dims" "dims ! 0 < 2 ^ 63"
  shows "sizes_loop dims 1 ((replicate (length dims) 0)[0 := dims ! 0]) = wsizes dims"
proof -
  have ne: "dims \<noteq> []" and d0: "0 < dims ! 0"
    using assms(1) by (auto simp: positive_def)
  have "wrap (dims ! 0) = dims ! 0"
    using d0 assms(2) by (intro wrap_id) simp_all
  then show ?thesis
    using ne by (intro sizes_loop_spec) (auto simp: stride_def take_Suc_conv_app_nth Suc_le_eq)
qed

lemma NewInterpreterSafe_built:
  assumes "\<forall>d\<in>set dims. d < 2 ^ 63"
  shows "NewInterpreterSafe dims = (itp, None) \<longleftrightarrow> positive dims \<and> itp = built dims"
proof (cases "positive dims")
  case True
  then have "dims ! 0 < 2 ^ 63" using assms by (simp add: positive_def)
  then have "sizes_loop dims 1 ((replicate (length dims) 0)[0 := dims ! 0]) = wsizes dims"
    by (rule sizes_loop_built [OF True])
  then show ?thesis
    using True by (simp add: NewInterpreterSafe_ok built_def)
next
  case False
  then show ?thesis by (simp add: NewInterpreterSafe_ok)
qed

section \<open>Points and indices\<close>

lemma prod_list_pos_int: "(\<forall>d\<in>set xs. 0 < d) \<Longrightarrow> 0 < prod_list xs" for xs :: "int list"
  by (induction xs) auto

lemma stride_pos: "positive dims \<Longrightarrow> 0 < stride dims j"
  unfolding stride_def positive_def
  by (intro prod_list_pos_int) (auto dest: in_set_takeD)

lemma stride_add: "stride dims (j + m) = stride dims j * prod_list (take m (drop j dims))"
  by (simp add: stride_def take_add)

lemma stride_dvd: "j \<le> k \<Longrightarrow> stride dims j dvd stride dims k"
  using stride_add [of dims j "k - j"] by simp

lemma stride_mono:
  assumes "positive dims" "j \<le> k"
  shows "stride dims j \<le> stride dims k"
proof -
  have "0 < prod_list (take (k - j) (drop j dims))"
    using assms(1) unfolding positive_def
    by (intro prod_list_pos_int) (auto dest: in_set_takeD in_set_dropD)
  then have "stride dims j * 1 \<le> stride dims j * prod_list (take (k - j) (drop j dims))"
    using stride_pos [OF assms(1), of j] by (intro mult_left_mono) simp_all
  then show ?thesis using stride_add [of dims j "k - j"] assms(2) by simp
qed

lemma stride_le_total: "positive dims \<Longrightarrow> stride dims j \<le> total dims"
proof -
  assume pos: "positive dims"
  show ?thesis
  proof (cases "j \<le> length dims")
    case True
    then show ?thesis using stride_mono [OF pos] by (simp add: total_def)
  next
    case False
    then show ?thesis by (simp add: total_def stride_def)
  qed
qed

lemma dims_le_total:
  assumes "positive dims" "j < length dims"
  shows "dims ! j \<le> total dims"
proof -
  have "0 < dims ! j" using assms nth_mem [OF assms(2)] by (auto simp: positive_def)
  then have "1 * dims ! j \<le> stride dims j * dims ! j"
    using stride_pos [OF assms(1), of j] by (intro mult_right_mono) simp_all
  then have "dims ! j \<le> stride dims (Suc j)" using assms(2) by (simp add: stride_Suc)
  then show ?thesis using stride_le_total [OF assms(1), of "Suc j"] by simp
qed

lemma dims_fit:
  assumes "positive dims" "total dims < 2 ^ 63"
  shows "\<forall>d\<in>set dims. d < 2 ^ 63"
proof
  fix d assume "d \<in> set dims"
  then obtain j where "j < length dims" "dims ! j = d" by (auto simp: in_set_conv_nth)
  then show "d < 2 ^ 63" using dims_le_total [OF assms(1), of j] assms(2) by simp
qed

lemma wsizes_fit:
  assumes "positive dims" "total dims < 2 ^ 63"
  shows "wsizes dims = sizes_of dims"
proof -
  have "wrap (stride dims (Suc j)) = stride dims (Suc j)" for j
    using stride_pos [OF assms(1), of "Suc j"] stride_le_total [OF assms(1), of "Suc j"] assms(2)
    by (intro wrap_id) simp_all
  then show ?thesis by (simp add: wsizes_def sizes_of_def)
qed

lemma built_fit: "positive dims \<Longrightarrow> total dims < 2 ^ 63 \<Longrightarrow> built dims = interp_of dims"
  by (simp add: built_def interp_of_def wsizes_fit)

lemma NewInterpreterSafe_iff:
  assumes "total dims < 2 ^ 63"
  shows "NewInterpreterSafe dims = (itp, None) \<longleftrightarrow> positive dims \<and> itp = interp_of dims"
proof (cases "positive dims")
  case True
  then show ?thesis
    using NewInterpreterSafe_built [OF dims_fit [OF True assms]] built_fit [OF True assms]
    by simp
next
  case False
  then show ?thesis by (simp add: NewInterpreterSafe_ok)
qed

lemma interp_of_simps [simp]:
  "Dims (interp_of dims) = dims" "Sizes (interp_of dims) = sizes_of dims"
  by (simp_all add: interp_of_def)

lemma length_sizes_of [simp]: "length (sizes_of dims) = length dims"
  by (simp add: sizes_of_def)

lemma nth_sizes_of [simp]: "j < length dims \<Longrightarrow> sizes_of dims ! j = stride dims (Suc j)"
  by (simp add: sizes_of_def)

lemma Size_interp: "dims \<noteq> [] \<Longrightarrow> Size (interp_of dims) = Inr (total dims)"
  by (simp add: Size_def total_def)

lemma CheckPoint_range_None:
  "CheckPoint_range itp point i vs = Inr None \<longleftrightarrow>
   (\<forall>k<length vs. 0 \<le> vs ! k \<and> i + k < length (Dims itp) \<and> vs ! k < Dims itp ! (i + k))"
proof (induction vs arbitrary: i)
  case Nil
  then show ?case by simp
next
  case (Cons v vs)
  show ?case
    by (simp add: Cons.IH All_less_Suc2 not_le)
qed

lemma CheckPoint_shape:
  "dims \<noteq> [] \<Longrightarrow> Dims itp = dims \<Longrightarrow> length (Sizes itp) = length dims \<Longrightarrow>
   CheckPoint itp p = Inr None \<longleftrightarrow> in_shape dims p"
  by (auto simp: CheckPoint_def CheckPoint_range_None in_shape_def)

lemma CheckPoint_interp:
  "positive dims \<Longrightarrow> CheckPoint (interp_of dims) p = Inr None \<longleftrightarrow> in_shape dims p"
  by (rule CheckPoint_shape) (simp_all add: positive_def)

lemma CheckPoint_built:
  "positive dims \<Longrightarrow> CheckPoint (built dims) p = Inr None \<longleftrightarrow> in_shape dims p"
  by (rule CheckPoint_shape) (simp_all add: positive_def built_def wsizes_def)

lemma IndexFast_loop_wrap:
  "length (Sizes itp) \<le> length point \<Longrightarrow>
   IndexFast_loop itp point i (wrap a) =
     Inr (wrap (a + (\<Sum>j = i..<length (Sizes itp). point ! j * Sizes itp ! (j - 1))))"
proof (induction "length (Sizes itp) - i" arbitrary: i a)
  case 0
  then show ?case by (subst IndexFast_loop.simps) simp
next
  case (Suc m)
  then have i: "i < length (Sizes itp)" "i < length point" by simp_all
  let ?t = "point ! i * Sizes itp ! (i - 1)"
  have "wrap (wrap a + wrap ?t) = wrap (a + ?t)" by (rule wrap_add_wrap)
  then have "IndexFast_loop itp point i (wrap a) = IndexFast_loop itp point (i + 1) (wrap (a + ?t))"
    using i by (subst IndexFast_loop.simps) simp
  moreover have "IndexFast_loop itp point (i + 1) (wrap (a + ?t)) =
      Inr (wrap (a + ?t + (\<Sum>j = i + 1..<length (Sizes itp). point ! j * Sizes itp ! (j - 1))))"
    using Suc.hyps(2) Suc.prems by (intro Suc.hyps(1)) simp_all
  ultimately show ?case
    using i by (simp add: sum.atLeast_Suc_lessThan add.assoc)
qed

lemma IndexFast_wrap:
  assumes "0 < length p" "length (Sizes itp) \<le> length p" "- (2 ^ 63) \<le> p ! 0" "p ! 0 < 2 ^ 63"
  shows "IndexFast itp p =
    Inr (wrap (p ! 0 + (\<Sum>j = 1..<length (Sizes itp). p ! j * Sizes itp ! (j - 1))))"
proof -
  have "IndexFast itp p = IndexFast_loop itp p 1 (wrap (p ! 0))"
    using assms by (simp add: IndexFast_def wrap_id)
  then show ?thesis using IndexFast_loop_wrap [OF assms(2), of 1 "p ! 0"] by simp
qed



lemma partial_bounds:
  assumes "positive dims" "in_shape dims p" "k \<le> length dims"
  shows "0 \<le> (\<Sum>j<k. p ! j * stride dims j) \<and> (\<Sum>j<k. p ! j * stride dims j) < stride dims k"
  using assms(3)
proof (induction k)
  case 0
  then show ?case by simp
next
  case (Suc k)
  then have k: "k < length dims" by simp
  let ?s = "\<Sum>j<k. p ! j * stride dims j"
  have ih: "0 \<le> ?s" "?s < stride dims k" using Suc by simp_all
  have pk: "0 \<le> p ! k" "p ! k + 1 \<le> dims ! k" using assms(2) k by (auto simp: in_shape_def)
  have sp: "0 < stride dims k" by (rule stride_pos [OF assms(1)])
  have "(p ! k + 1) * stride dims k \<le> dims ! k * stride dims k"
    using pk(2) sp by (intro mult_right_mono) auto
  then have "?s + p ! k * stride dims k < dims ! k * stride dims k"
    using ih(2) by (simp add: algebra_simps)
  moreover have "0 \<le> p ! k * stride dims k" using pk(1) sp by simp
  ultimately show ?case using ih(1) k by (simp add: stride_Suc mult.commute)
qed

lemma encode_bounds:
  "positive dims \<Longrightarrow> in_shape dims p \<Longrightarrow> 0 \<le> encode dims p \<and> encode dims p < total dims"
  using partial_bounds [of dims p "length dims"] by (simp add: encode_def total_def)

lemma IndexFast_interp:
  assumes "positive dims" "total dims < 2 ^ 63" "in_shape dims p"
  shows "IndexFast (interp_of dims) p = Inr (encode dims p)"
proof -
  have ne: "dims \<noteq> []" and len: "length p = length dims"
    using assms(1,3) by (simp_all add: positive_def in_shape_def)
  have p0: "0 \<le> p ! 0" "p ! 0 < dims ! 0" using assms(3) ne by (simp_all add: in_shape_def)
  have "dims ! 0 < 2 ^ 63" using dims_fit [OF assms(1,2)] ne by simp
  then have r: "- (2 ^ 63) \<le> p ! 0" "p ! 0 < 2 ^ 63" using p0 by simp_all
  have "(\<Sum>j = 1..<length dims. p ! j * sizes_of dims ! (j - 1))
      = (\<Sum>j = 1..<length dims. p ! j * stride dims j)"
    by (intro sum.cong) auto
  moreover have "{..<length dims} = insert 0 {1..<length dims}"
    using ne by auto
  then have "encode dims p = p ! 0 + (\<Sum>j = 1..<length dims. p ! j * stride dims j)"
    by (simp add: encode_def)
  ultimately have "IndexFast (interp_of dims) p = Inr (wrap (encode dims p))"
    using IndexFast_wrap [of p "interp_of dims", OF _ _ r] ne len by simp
  moreover have "wrap (encode dims p) = encode dims p"
    using encode_bounds [OF assms(1,3)] assms(2) by (intro wrap_id) simp_all
  ultimately show ?thesis by simp
qed

lemma sdiv_nonneg: "0 \<le> x \<Longrightarrow> 0 < s \<Longrightarrow> x sdiv s = x div s" for x s :: int
  by (simp add: signed_divide_int_def sgn_if)

lemma smod_nonneg: "0 \<le> x \<Longrightarrow> 0 < s \<Longrightarrow> x smod s = x mod s" for x s :: int
  by (simp add: signed_modulo_int_def sgn_if)

lemma div_less_stride:
  "0 < s \<Longrightarrow> y < s * d \<Longrightarrow> y div s < d" for y s d :: int
proof (rule ccontr)
  assume s: "0 < s" and y: "y < s * d" and n: "\<not> y div s < d"
  then have "s * d \<le> s * (y div s)" by (intro mult_left_mono) auto
  moreover have "s * (y div s) + y mod s = y" by simp
  moreover have "0 \<le> y mod s" using s by simp
  ultimately show False using y by linarith
qed

lemma div_le_self_int: "0 \<le> x \<Longrightarrow> 0 < s \<Longrightarrow> x div s \<le> x" for x s :: int
proof -
  assume "0 \<le> x" "0 < s"
  then have "x div s \<le> x div 1" by (intro zdiv_mono2) simp_all
  then show ?thesis by simp
qed

lemma PointSafe_loop_interp:
  assumes "positive dims" "total dims < 2 ^ 63"
  shows "length p = length dims \<Longrightarrow> i < length dims \<Longrightarrow> 0 \<le> x \<Longrightarrow> x < stride dims (Suc i) \<Longrightarrow>
    PointSafe_loop (interp_of dims) i p x =
      Inr (map (\<lambda>j. if 1 \<le> j \<and> j \<le> i then (x mod stride dims (Suc j)) div stride dims j else p ! j)
             [0..<length dims],
           x mod stride dims 1)"
proof (induction i arbitrary: p x)
  case 0
  then have "map (\<lambda>j. if 1 \<le> j \<and> j \<le> 0 then (x mod stride dims (Suc j)) div stride dims j else p ! j)
             [0..<length dims] = p"
    by (intro nth_equalityI) auto
  then show ?case using 0 by simp
next
  case (Suc i)
  let ?s = "stride dims (Suc i)"
  let ?p1 = "p[Suc i := x div ?s]" and ?x1 = "x mod ?s"
  have sp: "0 < ?s" by (rule stride_pos [OF assms(1)])
  have i: "i < length dims" using Suc.prems by simp
  have "x < total dims"
    using Suc.prems(4) stride_le_total [OF assms(1), of "Suc (Suc i)"] by simp
  then have "x < 2 ^ 63" using assms(2) by simp
  moreover have "0 \<le> x div ?s" "x div ?s \<le> x"
    using Suc.prems(3) sp by (simp_all add: pos_imp_zdiv_nonneg_iff div_le_self_int)
  ultimately have w: "wrap (x div ?s) = x div ?s" by (intro wrap_id) simp_all
  have step: "PointSafe_loop (interp_of dims) (Suc i) p x = PointSafe_loop (interp_of dims) i ?p1 ?x1"
    using i sp Suc.prems w by (simp add: sdiv_nonneg smod_nonneg)
  have ih: "PointSafe_loop (interp_of dims) i ?p1 ?x1 =
      Inr (map (\<lambda>j. if 1 \<le> j \<and> j \<le> i then (?x1 mod stride dims (Suc j)) div stride dims j else ?p1 ! j)
             [0..<length dims],
           ?x1 mod stride dims 1)"
    using Suc.prems sp i by (intro Suc.IH) simp_all
  have m: "?x1 mod stride dims (Suc j) = x mod stride dims (Suc j)" if "j \<le> i" for j
    using that by (intro mod_mod_cancel stride_dvd) simp
  have top: "x div ?s = (x mod stride dims (Suc (Suc i))) div ?s"
    using Suc.prems by simp
  have "map (\<lambda>j. if 1 \<le> j \<and> j \<le> i then (?x1 mod stride dims (Suc j)) div stride dims j else ?p1 ! j)
             [0..<length dims]
      = map (\<lambda>j. if 1 \<le> j \<and> j \<le> Suc i then (x mod stride dims (Suc j)) div stride dims j else p ! j)
             [0..<length dims]"
    using Suc.prems top by (auto simp: m nth_list_update)
  moreover have "?x1 mod stride dims 1 = x mod stride dims 1"
    using m [of 0] by simp
  ultimately show ?case using step ih by simp
qed

lemma PointSafe_interp:
  assumes "positive dims" "0 \<le> x" "x < total dims" "total dims < 2 ^ 63"
  shows "PointSafe (interp_of dims) x = Inr (decode dims x, None)"
proof -
  let ?n = "length dims"
  have ne: "dims \<noteq> []" using assms(1) by (simp add: positive_def)
  have ci: "CheckIndex (interp_of dims) x = Inr None"
    using assms ne by (simp add: CheckIndex_def Size_interp)
  have loop: "PointSafe_loop (interp_of dims) (?n - 1) (replicate ?n 0) x =
      Inr (map (\<lambda>j. if 1 \<le> j \<and> j \<le> ?n - 1 then (x mod stride dims (Suc j)) div stride dims j
                     else replicate ?n 0 ! j) [0..<?n],
           x mod stride dims 1)"
    using assms(2,3) ne by (intro PointSafe_loop_interp [OF assms(1,4)]) (simp_all add: total_def)
  have "(map (\<lambda>j. if 1 \<le> j \<and> j \<le> ?n - 1 then (x mod stride dims (Suc j)) div stride dims j
                     else replicate ?n 0 ! j) [0..<?n])[0 := x mod stride dims 1] = decode dims x"
    using ne by (intro nth_equalityI) (auto simp: decode_def nth_list_update)
  then show ?thesis
    using ci loop ne by (simp add: PointSafe_def)
qed

lemma decode_in_shape:
  assumes "positive dims"
  shows "in_shape dims (decode dims x)"
proof -
  have "0 \<le> (x mod stride dims (Suc j)) div stride dims j \<and>
        (x mod stride dims (Suc j)) div stride dims j < dims ! j" if "j < length dims" for j
  proof
    have sp: "0 < stride dims j" "0 < stride dims (Suc j)"
      by (rule stride_pos [OF assms])+
    then show "0 \<le> (x mod stride dims (Suc j)) div stride dims j"
      by (simp add: pos_imp_zdiv_nonneg_iff)
    have "x mod stride dims (Suc j) < stride dims j * dims ! j"
      using sp(2) that by (simp add: stride_Suc)
    then show "(x mod stride dims (Suc j)) div stride dims j < dims ! j"
      using sp(1) by (rule div_less_stride [rotated])
  qed
  then show ?thesis by (simp add: in_shape_def decode_def)
qed

lemma encode_decode:
  assumes "positive dims" "0 \<le> x" "x < total dims"
  shows "encode dims (decode dims x) = x"
proof -
  have tm: "decode dims x ! j * stride dims j = x mod stride dims (Suc j) - x mod stride dims j"
    if "j < length dims" for j
  proof -
    have "(x mod stride dims (Suc j)) mod stride dims j = x mod stride dims j"
      by (intro mod_mod_cancel stride_dvd) simp
    then have "(x mod stride dims (Suc j)) div stride dims j * stride dims j
        = x mod stride dims (Suc j) - x mod stride dims j"
      by (metis minus_mod_eq_div_mult)
    then show ?thesis using that by (simp add: decode_def)
  qed
  have "encode dims (decode dims x) = (\<Sum>j<length dims. x mod stride dims (Suc j) - x mod stride dims j)"
    unfolding encode_def by (intro sum.cong) (auto simp: tm)
  also have "\<dots> = x mod stride dims (length dims) - x mod stride dims 0"
    by (rule sum_lessThan_telescope)
  also have "\<dots> = x" using assms by (simp add: total_def)
  finally show ?thesis .
qed

lemma decode_encode:
  assumes "positive dims" "in_shape dims p"
  shows "decode dims (encode dims p) = p"
proof (intro nth_equalityI)
  show "length (decode dims (encode dims p)) = length p"
    using assms(2) by (simp add: decode_def in_shape_def)
next
  fix j assume "j < length (decode dims (encode dims p))"
  then have j: "j < length dims" by (simp add: decode_def)
  let ?f = "\<lambda>k. p ! k * stride dims k"
  let ?lo = "\<Sum>k<j. ?f k" and ?hi = "\<Sum>k = Suc j..<length dims. ?f k"
  have split: "encode dims p = (?lo + ?f j) + ?hi"
  proof -
    have "{..<length dims} = {..<Suc j} \<union> {Suc j..<length dims}" using j by auto
    moreover have "sum ?f ({..<Suc j} \<union> {Suc j..<length dims}) = sum ?f {..<Suc j} + ?hi"
      by (intro sum.union_disjoint) auto
    ultimately have "(\<Sum>k<length dims. ?f k) = (\<Sum>k<Suc j. ?f k) + ?hi"
      by simp
    then show ?thesis by (simp add: encode_def)
  qed
  have "stride dims (Suc j) dvd ?hi"
    by (intro dvd_sum dvd_mult stride_dvd) simp
  then obtain c where "?hi = stride dims (Suc j) * c" by (auto simp: dvd_def)
  then have "encode dims p mod stride dims (Suc j) = (?lo + ?f j) mod stride dims (Suc j)"
    unfolding split by simp
  moreover have "0 \<le> ?lo + ?f j \<and> ?lo + ?f j < stride dims (Suc j)"
    using partial_bounds [OF assms, of "Suc j"] j by simp
  ultimately have m: "encode dims p mod stride dims (Suc j) = ?lo + ?f j" by simp
  have lo: "0 \<le> ?lo \<and> ?lo < stride dims j"
    using partial_bounds [OF assms, of j] j by simp
  have "(?lo + p ! j * stride dims j) div stride dims j = p ! j"
    using lo by (simp add: div_pos_pos_trivial)
  then show "decode dims (encode dims p) ! j = p ! j"
    using j m by (simp add: decode_def)
qed

section \<open>Stepping\<close>

lemma tail_step: "i < length dims \<Longrightarrow> tail dims p i = p ! i * stride dims i + tail dims p (Suc i)"
  by (simp add: tail_def sum.atLeast_Suc_lessThan)

lemma tail_cong:
  "(\<And>j. i \<le> j \<Longrightarrow> j < length dims \<Longrightarrow> p ! j = q ! j) \<Longrightarrow> tail dims p i = tail dims q i"
  unfolding tail_def by (intro sum.cong) auto

lemma tail_0: "tail dims p 0 = encode dims p"
  by (simp add: tail_def encode_def lessThan_atLeast0)

lemma tail_end [simp]: "tail dims p (length dims) = 0"
  by (simp add: tail_def)

lemma IncrementFast_loop_spec:
  assumes "Dims itp = dims" "\<forall>j<length dims. dims ! j < 2 ^ 63"
  shows "length p = length dims \<Longrightarrow> i < length dims \<Longrightarrow>
    (\<forall>j. i \<le> j \<and> j < length dims \<longrightarrow> 0 \<le> p ! j \<and> p ! j < dims ! j) \<Longrightarrow>
    \<exists>b p'. IncrementFast_loop itp i p = Inr (b, p') \<and> length p' = length dims \<and>
      (\<forall>j<i. p' ! j = p ! j) \<and>
      (\<forall>j. i \<le> j \<and> j < length dims \<longrightarrow> 0 \<le> p' ! j \<and> p' ! j < dims ! j) \<and>
      tail dims p' i + (if b then 0 else total dims) = tail dims p i + stride dims i"
proof (induction "length dims - i" arbitrary: i p)
  case 0
  then show ?case by simp
next
  case (Suc m)
  note i = \<open>i < length dims\<close> and len = \<open>length p = length dims\<close>
  have pi: "0 \<le> p ! i" "p ! i < dims ! i" using Suc.prems i by auto
  have w: "wrap (p ! i + 1) = p ! i + 1"
    using pi assms(2) i by (intro wrap_id) auto
  show ?case
  proof (cases "p ! i + 1 < dims ! i")
    case True
    let ?p1 = "p[i := p ! i + 1]"
    have run: "IncrementFast_loop itp i p = Inr (True, ?p1)"
      using True i len assms(1) w by (subst IncrementFast_loop.simps) simp
    have "tail dims ?p1 (Suc i) = tail dims p (Suc i)"
      by (intro tail_cong) simp
    then have "tail dims ?p1 i = tail dims p i + stride dims i"
      using i len by (simp add: tail_step algebra_simps)
    moreover have "\<forall>j. i \<le> j \<and> j < length dims \<longrightarrow> 0 \<le> ?p1 ! j \<and> ?p1 ! j < dims ! j"
      using Suc.prems True pi by (auto simp: nth_list_update)
    ultimately show ?thesis using run len
      by (intro exI [of _ True] exI [of _ ?p1]) simp
  next
    case False
    then have top: "dims ! i = p ! i + 1" using pi by simp
    let ?p2 = "p[i := 0]"
    have dpos: "0 < dims ! i" using pi by simp
    show ?thesis
    proof (cases "i = length dims - 1")
      case True
      have run: "IncrementFast_loop itp i p = Inr (False, ?p2)"
        using False True i len assms(1) w by (subst IncrementFast_loop.simps) simp
      have n: "Suc i = length dims" using True i by simp
      have e: "tail dims q (Suc i) = 0" for q using n by (simp add: tail_def)
      have "tail dims ?p2 i = 0" using i len e [of ?p2] by (simp add: tail_step)
      moreover have "total dims = stride dims i * dims ! i"
        using stride_Suc [OF i] n by (simp add: total_def)
      then have "tail dims p i + stride dims i = total dims"
        using tail_step [OF i, of p] e [of p] top by (simp add: algebra_simps)
      moreover have "\<forall>j. i \<le> j \<and> j < length dims \<longrightarrow> 0 \<le> ?p2 ! j \<and> ?p2 ! j < dims ! j"
        using Suc.prems dpos by (auto simp: nth_list_update)
      ultimately show ?thesis using run len
        by (intro exI [of _ False] exI [of _ ?p2]) simp
    next
      case notlast: False
      then have i': "Suc i < length dims" using i by simp
      have run: "IncrementFast_loop itp i p = IncrementFast_loop itp (Suc i) ?p2"
        using False notlast i len assms(1) w by (subst IncrementFast_loop.simps) simp
      have "m = length dims - Suc i" using Suc.hyps(2) by simp
      moreover have "length ?p2 = length dims" using len by simp
      moreover have "\<forall>j. Suc i \<le> j \<and> j < length dims \<longrightarrow> 0 \<le> ?p2 ! j \<and> ?p2 ! j < dims ! j"
        using Suc.prems by (auto simp: nth_list_update)
      ultimately obtain b p' where r:
        "IncrementFast_loop itp (Suc i) ?p2 = Inr (b, p')" "length p' = length dims"
        "\<forall>j<Suc i. p' ! j = ?p2 ! j"
        "\<forall>j. Suc i \<le> j \<and> j < length dims \<longrightarrow> 0 \<le> p' ! j \<and> p' ! j < dims ! j"
        "tail dims p' (Suc i) + (if b then 0 else total dims) = tail dims ?p2 (Suc i) + stride dims (Suc i)"
        using Suc.hyps(1) [of "Suc i" ?p2] i' by blast
      have pi0: "p' ! i = 0" using r(3) i len by simp
      have "tail dims ?p2 (Suc i) = tail dims p (Suc i)"
        by (intro tail_cong) simp
      then have "tail dims p' i + (if b then 0 else total dims) = tail dims p i + stride dims i"
        using r(5) pi0 i top by (simp add: tail_step stride_Suc algebra_simps)
      moreover have "\<forall>j<i. p' ! j = p ! j" using r(3) by simp
      moreover have "\<forall>j. i \<le> j \<and> j < length dims \<longrightarrow> 0 \<le> p' ! j \<and> p' ! j < dims ! j"
      proof (intro allI impI)
        fix j assume j: "i \<le> j \<and> j < length dims"
        show "0 \<le> p' ! j \<and> p' ! j < dims ! j"
        proof (cases "j = i")
          case True
          then show ?thesis using pi0 dpos by simp
        next
          case False
          then show ?thesis using r(4) j by simp
        qed
      qed
      ultimately show ?thesis using run r(1,2)
        by (intro exI [of _ b] exI [of _ p']) simp
    qed
  qed
qed

lemma IncrementFast_shape:
  assumes "positive dims" "\<forall>d\<in>set dims. d < 2 ^ 63" "Dims itp = dims" "in_shape dims p"
  shows "IncrementFast itp p =
    Inr (encode dims p + 1 < total dims, decode dims ((encode dims p + 1) mod total dims))"
proof -
  have ne: "0 < length dims" using assms(1) by (simp add: positive_def)
  have fit: "\<forall>j<length dims. dims ! j < 2 ^ 63" using assms(2) by simp
  obtain b p' where r: "IncrementFast_loop itp 0 p = Inr (b, p')"
    "length p' = length dims"
    "\<forall>j. 0 \<le> j \<and> j < length dims \<longrightarrow> 0 \<le> p' ! j \<and> p' ! j < dims ! j"
    "tail dims p' 0 + (if b then 0 else total dims) = tail dims p 0 + stride dims 0"
    using IncrementFast_loop_spec [OF assms(3) fit, of p 0] assms(4) ne
    by (auto simp: in_shape_def)
  have shp: "in_shape dims p'" using r(2,3) by (simp add: in_shape_def)
  have eq: "encode dims p' + (if b then 0 else total dims) = encode dims p + 1"
    using r(4) by (simp add: tail_0)
  have b': "0 \<le> encode dims p'" "encode dims p' < total dims"
    using encode_bounds [OF assms(1) shp] by simp_all
  have b0: "0 \<le> encode dims p" "encode dims p < total dims"
    using encode_bounds [OF assms(1,4)] by simp_all
  have "b \<longleftrightarrow> encode dims p + 1 < total dims"
    using eq b' b0 by (auto split: if_splits)
  moreover have "encode dims p' = (encode dims p + 1) mod total dims"
  proof (cases b)
    case True
    then show ?thesis using eq b' by simp
  next
    case False
    then have "encode dims p + 1 = encode dims p' + total dims" using eq by simp
    then show ?thesis using b' by simp
  qed
  then have "p' = decode dims ((encode dims p + 1) mod total dims)"
    using decode_encode [OF assms(1) shp] by simp
  ultimately show ?thesis using r(1) by (simp add: IncrementFast_def)
qed

lemma IncrementSafe_shape:
  assumes "positive dims" "\<forall>d\<in>set dims. d < 2 ^ 63" "Dims itp = dims"
    "length (Sizes itp) = length dims" "in_shape dims p"
  shows "IncrementSafe itp p =
    Inr ((encode dims p + 1 < total dims, None), decode dims ((encode dims p + 1) mod total dims))"
proof -
  have "CheckPoint itp p = Inr None"
    using assms CheckPoint_shape [of dims itp p] by (simp add: positive_def)
  then show ?thesis
    using IncrementFast_shape [OF assms(1,2,3,5)] by (simp add: IncrementSafe_def)
qed

lemma IncrementSafe_interp:
  assumes "positive dims" "in_shape dims p" "total dims < 2 ^ 63"
  shows "IncrementSafe (interp_of dims) p =
    Inr ((encode dims p + 1 < total dims, None), decode dims ((encode dims p + 1) mod total dims))"
  using assms by (intro IncrementSafe_shape dims_fit) simp_all

lemma IncrementSafe_decode:
  assumes "positive dims" "0 \<le> x" "x < total dims" "total dims < 2 ^ 63"
  shows "IncrementSafe (interp_of dims) (decode dims x) =
    Inr ((x + 1 < total dims, None), decode dims ((x + 1) mod total dims))"
  using IncrementSafe_interp [OF assms(1) decode_in_shape [OF assms(1)] assms(4), of x]
  by (simp add: encode_decode [OF assms(1-3)])

lemma IndexSafe_interp:
  assumes "positive dims" "in_shape dims p" "total dims < 2 ^ 63"
  shows "IndexSafe (interp_of dims) p = Inr (encode dims p, None)"
proof -
  have "CheckPoint (interp_of dims) p = Inr None"
    using assms CheckPoint_interp by simp
  moreover have "IndexFast (interp_of dims) p = Inr (encode dims p)"
    by (rule IndexFast_interp [OF assms(1,3,2)])
  ultimately show ?thesis by (simp add: IndexSafe_def)
qed

lemma encode_max:
  assumes "positive dims"
  shows "encode dims (map (\<lambda>d. d - 1) dims) = total dims - 1"
proof -
  have "encode dims (map (\<lambda>d. d - 1) dims) = (\<Sum>j<length dims. stride dims (Suc j) - stride dims j)"
    unfolding encode_def by (intro sum.cong) (auto simp: stride_Suc algebra_simps)
  also have "\<dots> = stride dims (length dims) - stride dims 0"
    by (rule sum_lessThan_telescope)
  finally show ?thesis by (simp add: total_def)
qed

lemma encode_zero: "encode dims (replicate (length dims) 0) = 0"
  by (simp add: encode_def)

lemma decode_zero: "decode dims 0 = replicate (length dims) 0"
  by (intro nth_equalityI) (auto simp: decode_def)

lemma total_pos: "positive dims \<Longrightarrow> 0 < total dims"
  by (simp add: total_def stride_pos)

lemma total_prod: "total dims = prod_list dims"
  by (simp add: total_def stride_def)

lemma maximal_iff:
  assumes "positive dims" "in_shape dims p"
  shows "(\<forall>j<length dims. p ! j = dims ! j - 1) \<longleftrightarrow> encode dims p = total dims - 1"
proof
  assume "\<forall>j<length dims. p ! j = dims ! j - 1"
  then have "p = map (\<lambda>d. d - 1) dims"
    using assms(2) by (intro nth_equalityI) (auto simp: in_shape_def)
  then show "encode dims p = total dims - 1" using encode_max [OF assms(1)] by simp
next
  assume e: "encode dims p = total dims - 1"
  have "in_shape dims (map (\<lambda>d. d - 1) dims)"
    using assms(1) by (auto simp: in_shape_def positive_def)
  then have "decode dims (encode dims (map (\<lambda>d. d - 1) dims)) = map (\<lambda>d. d - 1) dims"
    by (rule decode_encode [OF assms(1)])
  then have "p = map (\<lambda>d. d - 1) dims"
    using decode_encode [OF assms] e encode_max [OF assms(1)] by simp
  then show "\<forall>j<length dims. p ! j = dims ! j - 1"
    by (metis length_map nth_map)
qed

lemma interp_234:
  "NewInterpreterSafe [2, 3, 4] = (\<lparr>Dims = [2, 3, 4], Sizes = [2, 6, 24]\<rparr>, None)"
  by (simp add: NewInterpreterSafe_def sizes_loop.simps wrap_def)

lemma upt_0_Suc_Cons: "[0..<Suc n] = 0 # map Suc [0..<n]"
  by (subst upt_rec) (simp add: map_Suc_upt)

lemma increment_run_decode:
  assumes "positive dims" "total dims < 2 ^ 63"
  shows "0 \<le> x \<Longrightarrow> x + int n \<le> total dims \<Longrightarrow>
    increment_run (interp_of dims) n (decode dims x) =
      Inr (map (\<lambda>k. ((x + int k + 1 < total dims, None), decode dims ((x + int k + 1) mod total dims)))
             [0..<n])"
proof (induction n arbitrary: x)
  case 0
  then show ?case by simp
next
  case (Suc n)
  have x: "0 \<le> x" "x < total dims" using Suc.prems by simp_all
  have step: "IncrementSafe (interp_of dims) (decode dims x) =
      Inr ((x + 1 < total dims, None), decode dims ((x + 1) mod total dims))"
    by (rule IncrementSafe_decode [OF assms(1) x assms(2)])
  show ?case
  proof (cases "x + 1 < total dims")
    case True
    then have m: "(x + 1) mod total dims = x + 1" using x by simp
    have "increment_run (interp_of dims) n (decode dims (x + 1)) =
      Inr (map (\<lambda>k. ((x + 1 + int k + 1 < total dims, None),
                      decode dims ((x + 1 + int k + 1) mod total dims))) [0..<n])"
      using Suc.prems x by (intro Suc.IH) simp_all
    then show ?thesis
      using step m by (simp add: upt_0_Suc_Cons comp_def algebra_simps del: upt_Suc)
  next
    case False
    then have "n = 0" using Suc.prems by simp
    then show ?thesis using step by simp
  qed
qed

section \<open>Steps of the traversal\<close>

lemma lock_step_stop:
  assumes "sharedErr st \<noteq> None"
  shows "lock_step useFast itp opts t st = Inr (set_worker t ((workers st ! t)\<lparr>wpc := Returned\<rparr>) st)"
  using assms by (simp add: lock_step_def Let_def)

lemma lock_step_publish:
  assumes "sharedErr st = None" "localErr (workers st ! t) \<noteq> None"
  shows "lock_step useFast itp opts t st =
    Inr (set_worker t ((workers st ! t)\<lparr>wpc := Returned\<rparr>) (st\<lparr>sharedErr := localErr (workers st ! t)\<rparr>))"
  using assms by (simp add: lock_step_def Let_def)

lemma lock_step_exhausted:
  assumes "dims \<noteq> []" "sharedErr st = None" "localErr (workers st ! t) = None"
    "total dims \<le> sharedIndex st"
  shows "lock_step useFast (interp_of dims) opts t st =
    Inr (set_worker t ((workers st ! t)\<lparr>wpc := Returned\<rparr>) st)"
  using assms by (simp add: lock_step_def Size_interp Let_def)

lemma lock_step_claim:
  assumes "positive dims" "1 \<le> OpsPerThread opts"
    "0 \<le> sharedIndex st" "sharedPoint st = decode dims (sharedIndex st)"
    "sharedErr st = None" "localErr (workers st ! t) = None"
    "sharedIndex st < total dims"
    "total dims < 2 ^ 63" "sharedIndex st + OpsPerThread opts < 2 ^ 63"
  shows "lock_step False (interp_of dims) opts t st =
    Inr (set_worker t
           ((workers st ! t)\<lparr>localIndex := sharedIndex st, localPoint := sharedPoint st,
              localEnd := min (sharedIndex st + OpsPerThread opts) (total dims), wpc := InBatch\<rparr>)
           (st\<lparr>sharedIndex := sharedIndex st + OpsPerThread opts,
               sharedPoint := (if sharedIndex st + OpsPerThread opts < total dims
                               then decode dims (sharedIndex st + OpsPerThread opts)
                               else sharedPoint st),
               sharedErr := None\<rparr>))"
proof -
  let ?x = "sharedIndex st" and ?ops = "OpsPerThread opts"
  have ne: "dims \<noteq> []" using assms(1) by (simp add: positive_def)
  have w: "wrap (?x + ?ops) = ?x + ?ops"
    using assms(2,3,9) by (intro wrap_id) simp_all
  show ?thesis
  proof (cases "?x + ?ops < total dims")
    case False
    then show ?thesis
      using assms ne w
      by (simp add: lock_step_def Size_interp enter_batch_def set_worker_def min_def Let_def)
  next
    case True
    show ?thesis
    proof (cases "?ops > 1")
      case big: True
      have "PointSafe (interp_of dims) (?x + ?ops) = Inr (decode dims (?x + ?ops), None)"
        using assms True by (intro PointSafe_interp) simp_all
      then show ?thesis
        using assms ne True big w
        by (simp add: lock_step_def Size_interp enter_batch_def set_worker_def min_def Let_def
            makePoint_def)
    next
      case False
      then have one: "?ops = 1" using assms(2) by simp
      have "IncrementSafe (interp_of dims) (decode dims ?x) =
          Inr ((?x + 1 < total dims, None), decode dims ((?x + 1) mod total dims))"
        using assms by (intro IncrementSafe_decode) simp_all
      moreover have "(?x + 1) mod total dims = ?x + 1" using True one assms(3) by simp
      ultimately show ?thesis
        using assms ne True one w
        by (simp add: lock_step_def Size_interp enter_batch_def set_worker_def min_def Let_def
            increment_def)
    qed
  qed
qed

lemma batch_step_visit:
  assumes "positive dims" "0 \<le> localIndex (workers st ! t)"
    "localIndex (workers st ! t) < localEnd (workers st ! t)"
    "localEnd (workers st ! t) \<le> total dims"
    "localPoint (workers st ! t) = decode dims (localIndex (workers st ! t))"
    "total dims < 2 ^ 63"
  shows "batch_step False (interp_of dims) (Some f) t st =
    Inr (set_worker t
           ((workers st ! t)\<lparr>
              localErr := (case f (localPoint (workers st ! t)) (localIndex (workers st ! t)) of
                             None \<Rightarrow> localErr (workers st ! t) | Some e \<Rightarrow> Some e),
              localIndex := localIndex (workers st ! t) + 1,
              localPoint := (if localIndex (workers st ! t) + 1 = localEnd (workers st ! t)
                             then localPoint (workers st ! t)
                             else decode dims (localIndex (workers st ! t) + 1)),
              wpc := (if localIndex (workers st ! t) + 1 = localEnd (workers st ! t)
                      then AtLock else InBatch)\<rparr>)
           (st\<lparr>calls := calls st @ [(localPoint (workers st ! t), localIndex (workers st ! t))]\<rparr>))"
proof -
  let ?w = "workers st ! t"
  let ?li = "localIndex ?w"
  have w: "wrap (?li + 1) = ?li + 1"
    using assms(2,3,4,6) by (intro wrap_id) simp_all
  have w': "wrap (localIndex (?w\<lparr>localErr := e\<rparr>) + 1) = ?li + 1" for e
    using w by simp
  show ?thesis
  proof (cases "?li + 1 = localEnd ?w")
    case True
    then show ?thesis
      using w by (cases "f (localPoint ?w) ?li") (simp_all add: batch_step_def set_worker_def Let_def)
  next
    case False
    then have lt: "?li + 1 < total dims" using assms by simp
    have "IncrementSafe (interp_of dims) (decode dims ?li) =
        Inr ((?li + 1 < total dims, None), decode dims ((?li + 1) mod total dims))"
      using assms lt by (intro IncrementSafe_decode) simp_all
    moreover have "(?li + 1) mod total dims = ?li + 1" using lt assms(2) by simp
    ultimately show ?thesis
      using False lt assms w
      by (cases "f (localPoint ?w) ?li")
         (simp_all add: batch_step_def set_worker_def Let_def increment_def)
  qed
qed

lemma set_worker_simps [simp]:
  "sharedIndex (set_worker t w st) = sharedIndex st"
  "sharedPoint (set_worker t w st) = sharedPoint st"
  "sharedErr (set_worker t w st) = sharedErr st"
  "workers (set_worker t w st) = (workers st)[t := w]"
  "calls (set_worker t w st) = calls st"
  by (simp_all add: set_worker_def)

lemma returned_simps [simp]:
  "sharedIndex (returned t st) = sharedIndex st"
  "sharedPoint (returned t st) = sharedPoint st"
  "sharedErr (returned t st) = sharedErr st"
  "workers (returned t st) = (workers st)[t := (workers st ! t)\<lparr>wpc := Returned\<rparr>]"
  "calls (returned t st) = calls st"
  by (simp_all add: returned_def)

lemma claimed_simps [simp]:
  "sharedIndex (claimed dims opts t st) = sharedIndex st + OpsPerThread opts"
  "sharedPoint (claimed dims opts t st) =
     (if sharedIndex st + OpsPerThread opts < total dims
      then decode dims (sharedIndex st + OpsPerThread opts) else sharedPoint st)"
  "sharedErr (claimed dims opts t st) = None"
  "workers (claimed dims opts t st) =
     (workers st)[t := (workers st ! t)\<lparr>localIndex := sharedIndex st, localPoint := sharedPoint st,
          localEnd := min (sharedIndex st + OpsPerThread opts) (total dims), wpc := InBatch\<rparr>]"
  "calls (claimed dims opts t st) = calls st"
  by (simp_all add: claimed_def)

lemma visited_simps [simp]:
  "sharedIndex (visited dims f t st) = sharedIndex st"
  "sharedPoint (visited dims f t st) = sharedPoint st"
  "sharedErr (visited dims f t st) = sharedErr st"
  "workers (visited dims f t st) =
     (workers st)[t := (workers st ! t)\<lparr>
          localErr := (case f (localPoint (workers st ! t)) (localIndex (workers st ! t)) of
                         None \<Rightarrow> localErr (workers st ! t) | Some e \<Rightarrow> Some e),
          localIndex := localIndex (workers st ! t) + 1,
          localPoint := (if localIndex (workers st ! t) + 1 = localEnd (workers st ! t)
                         then localPoint (workers st ! t)
                         else decode dims (localIndex (workers st ! t) + 1)),
          wpc := (if localIndex (workers st ! t) + 1 = localEnd (workers st ! t)
                  then AtLock else InBatch)\<rparr>]"
  "calls (visited dims f t st) = calls st @ [(localPoint (workers st ! t), localIndex (workers st ! t))]"
  by (simp_all add: visited_def)

lemma step_idle: "\<not> live st t \<Longrightarrow> step useFast itp fn opts t st = Inr st"
  by (auto simp: step_def live_def)

lemma batch_end_bound:
  fixes n ops x :: int
  assumes "1 \<le> ops" "0 \<le> x" "x < n" "ops dvd x"
  shows "x + ops \<le> last_batch_end n ops"
proof -
  obtain k where k: "x = ops * k" using assms(4) by (auto simp: dvd_def)
  have "x + ops \<le> n + ops - 1" using assms(3) by simp
  then have "(x + ops) div ops \<le> (n + ops - 1) div ops"
    using assms(1) by (intro zdiv_mono1) simp_all
  moreover have "(ops + ops * k) div ops = 1 + k"
    using assms(1) by (subst div_mult_self2) simp_all
  then have "(x + ops) div ops = k + 1" using k by (simp add: add.commute)
  ultimately have "k + 1 \<le> (n + ops - 1) div ops" by simp
  then have "(k + 1) * ops \<le> ((n + ops - 1) div ops) * ops"
    using assms(1) by (intro mult_right_mono) simp_all
  then show ?thesis using k by (simp add: last_batch_end_def algebra_simps)
qed

lemma last_batch_end_self: "0 < n \<Longrightarrow> last_batch_end n n = n" for n :: int
proof -
  assume n: "0 < n"
  have "(n - 1 + n * 1) div n = (n - 1) div n + 1"
    using n by (subst div_mult_self2) simp_all
  moreover have "(n - 1) div n = 0" using n by (intro div_pos_pos_trivial) simp_all
  ultimately have "(n + n - 1) div n = 1" by (simp add: algebra_simps)
  then show ?thesis by (simp add: last_batch_end_def)
qed

lemma step_cases [consumes 5, case_names stop publish exhausted claim visit]:
  assumes fit: "no_overflow dims opts" and pos: "positive dims" and ops: "1 \<le> OpsPerThread opts"
    and wf: "wf_state dims opts st" and lv: "live st t"
  obtains
    (stop) "wpc (workers st ! t) = AtLock" "sharedErr st \<noteq> None"
      "step False (interp_of dims) (Some f) opts t st = Inr (returned t st)"
  | (publish) "wpc (workers st ! t) = AtLock" "sharedErr st = None"
      "localErr (workers st ! t) \<noteq> None"
      "step False (interp_of dims) (Some f) opts t st =
         Inr (returned t (st\<lparr>sharedErr := localErr (workers st ! t)\<rparr>))"
  | (exhausted) "wpc (workers st ! t) = AtLock" "sharedErr st = None"
      "localErr (workers st ! t) = None" "total dims \<le> sharedIndex st"
      "step False (interp_of dims) (Some f) opts t st = Inr (returned t st)"
  | (claim) "wpc (workers st ! t) = AtLock" "sharedErr st = None"
      "localErr (workers st ! t) = None" "sharedIndex st < total dims"
      "step False (interp_of dims) (Some f) opts t st = Inr (claimed dims opts t st)"
  | (visit) "wpc (workers st ! t) = InBatch"
      "0 \<le> localIndex (workers st ! t)" "localIndex (workers st ! t) < localEnd (workers st ! t)"
      "localEnd (workers st ! t) \<le> total dims"
      "localPoint (workers st ! t) = decode dims (localIndex (workers st ! t))"
      "step False (interp_of dims) (Some f) opts t st = Inr (visited dims f t st)"
proof -
  let ?w = "workers st ! t"
  have t: "t < length (workers st)" and nr: "wpc ?w \<noteq> Returned"
    using lv by (simp_all add: live_def)
  have ne: "dims \<noteq> []" using pos by (simp add: positive_def)
  have tf: "total dims < 2 ^ 63" using fit by (simp add: no_overflow_def)
  show thesis
  proof (cases "wpc ?w")
    case Returned
    then show ?thesis using nr by simp
  next
    case InBatch
    have "batch_ok dims ?w" using wf t by (simp add: wf_state_def)
    then have b: "0 \<le> localIndex ?w" "localIndex ?w < localEnd ?w" "localEnd ?w \<le> total dims"
      "localPoint ?w = decode dims (localIndex ?w)"
      using InBatch by (simp_all add: batch_ok_def)
    have "step False (interp_of dims) (Some f) opts t st = Inr (visited dims f t st)"
      using batch_step_visit [OF pos b tf] t InBatch by (simp add: step_def visited_def)
    then show ?thesis using InBatch b by (rule visit [rotated -1])
  next
    case AtLock
    then have s: "step False (interp_of dims) (Some f) opts t st = lock_step False (interp_of dims) opts t st"
      using t by (simp add: step_def)
    show ?thesis
    proof (cases "sharedErr st = None")
      case False
      then show ?thesis
        using AtLock s lock_step_stop [of st False "interp_of dims" opts t]
        by (intro stop) (simp_all add: returned_def)
    next
      case noerr: True
      show ?thesis
      proof (cases "localErr ?w = None")
        case False
        then show ?thesis
          using AtLock s noerr lock_step_publish [of st t False "interp_of dims" opts]
          by (intro publish) (simp_all add: returned_def set_worker_def)
      next
        case nolocal: True
        show ?thesis
        proof (cases "sharedIndex st < total dims")
          case False
          then show ?thesis
            using AtLock s noerr nolocal ne
              lock_step_exhausted [of dims st t False opts]
            by (intro exhausted) (simp_all add: returned_def)
        next
          case True
          have x: "0 \<le> sharedIndex st" "sharedPoint st = decode dims (sharedIndex st)"
            "OpsPerThread opts dvd sharedIndex st"
            using wf True by (simp_all add: wf_state_def)
          have "sharedIndex st + OpsPerThread opts \<le> last_batch_end (total dims) (OpsPerThread opts)"
            by (rule batch_end_bound [OF ops x(1) True x(3)])
          then have "sharedIndex st + OpsPerThread opts < 2 ^ 63"
            using fit by (simp add: no_overflow_def)
          then show ?thesis
            using AtLock s noerr nolocal True x tf lock_step_claim [OF pos ops, of st t]
            by (intro claim) (simp_all add: claimed_def)
        qed
      qed
    qed
  qed
qed

section \<open>Progress\<close>

lemma sum_list_map_update:
  "t < length ws \<Longrightarrow>
   sum_list (map g (ws[t := w])) + g (ws ! t) = sum_list (map g ws) + (g w :: nat)"
proof (induction ws arbitrary: t)
  case Nil
  then show ?case by simp
next
  case (Cons a ws)
  then show ?case by (cases t) (simp_all add: add.assoc add.left_commute)
qed

lemma wf_state_update:
  assumes "wf_state dims opts st" "batch_ok dims w"
    "sharedIndex st' = sharedIndex st" "sharedPoint st' = sharedPoint st"
    "workers st' = (workers st)[t := w]"
  shows "wf_state dims opts st'"
proof -
  have "\<forall>v\<in>set ((workers st)[t := w]). batch_ok dims v"
    using assms(1,2) set_update_subset_insert [of "workers st" t w]
    by (auto simp: wf_state_def)
  then show ?thesis using assms by (simp add: wf_state_def)
qed

lemma wf_returned: "wf_state dims opts st \<Longrightarrow> wf_state dims opts (returned t st)"
  by (rule wf_state_update [where w = "(workers st ! t)\<lparr>wpc := Returned\<rparr>" and t = t])
     (simp_all add: batch_ok_def)

lemma wf_published: "wf_state dims opts st \<Longrightarrow> wf_state dims opts (returned t (st\<lparr>sharedErr := e\<rparr>))"
  by (rule wf_state_update [where w = "(workers st ! t)\<lparr>wpc := Returned\<rparr>" and t = t])
     (simp_all add: batch_ok_def)

lemma wf_claimed:
  assumes "wf_state dims opts st" "1 \<le> OpsPerThread opts" "sharedIndex st < total dims"
  shows "wf_state dims opts (claimed dims opts t st)"
proof -
  have x: "0 \<le> sharedIndex st" "sharedPoint st = decode dims (sharedIndex st)"
    "OpsPerThread opts dvd sharedIndex st"
    using assms(1,3) by (simp_all add: wf_state_def)
  let ?w = "(workers st ! t)\<lparr>localIndex := sharedIndex st, localPoint := sharedPoint st,
          localEnd := min (sharedIndex st + OpsPerThread opts) (total dims), wpc := InBatch\<rparr>"
  have "batch_ok dims ?w" using x assms(2,3) by (simp add: batch_ok_def)
  then have "\<forall>v\<in>set ((workers st)[t := ?w]). batch_ok dims v"
    using assms(1) set_update_subset_insert [of "workers st" t ?w]
    by (auto simp: wf_state_def)
  then show ?thesis using x assms(2) by (simp add: wf_state_def)
qed

lemma wf_visited:
  assumes "wf_state dims opts st" "0 \<le> localIndex (workers st ! t)"
    "localEnd (workers st ! t) \<le> total dims"
    "localIndex (workers st ! t) < localEnd (workers st ! t)"
  shows "wf_state dims opts (visited dims f t st)"
proof -
  let ?v = "workers st ! t"
  let ?w = "?v\<lparr>
          localErr := (case f (localPoint ?v) (localIndex ?v) of
                         None \<Rightarrow> localErr ?v | Some e \<Rightarrow> Some e),
          localIndex := localIndex ?v + 1,
          localPoint := (if localIndex ?v + 1 = localEnd ?v
                         then localPoint ?v else decode dims (localIndex ?v + 1)),
          wpc := (if localIndex ?v + 1 = localEnd ?v then AtLock else InBatch)\<rparr>"
  have "batch_ok dims ?w" using assms(2-4) by (simp add: batch_ok_def)
  then show ?thesis
    by (rule wf_state_update [OF assms(1), where t = t]) simp_all
qed

lemma wf_initial:
  "wf_state dims opts (initial (interp_of dims) opts)"
  by (simp add: wf_state_def initial_def decode_zero batch_ok_def)

lemma live_update_other:
  "workers st' = (workers st)[t := w] \<Longrightarrow> u \<noteq> t \<Longrightarrow> live st' u \<longleftrightarrow> live st u"
  by (simp add: live_def)

lemma live_measure_pos: "live st t \<Longrightarrow> 0 < measure_state dims st"
proof -
  assume l: "live st t"
  then have "workers st ! t \<in> set (workers st)" by (simp add: live_def)
  then have "worker_measure (workers st ! t) \<le> sum_list (map worker_measure (workers st))"
    by (simp add: member_le_sum_list)
  moreover have "0 < worker_measure (workers st ! t)"
    using l by (cases "wpc (workers st ! t)") (simp_all add: live_def worker_measure_def)
  ultimately show ?thesis by (simp add: measure_state_def)
qed

lemma step_progress:
  assumes "positive dims" "1 \<le> OpsPerThread opts" "wf_state dims opts st" "live st t"
    "no_overflow dims opts"
  shows "\<exists>st'. step False (interp_of dims) (Some f) opts t st = Inr st' \<and>
    wf_state dims opts st' \<and> measure_state dims st' < measure_state dims st \<and>
    length (workers st') = length (workers st) \<and>
    (\<forall>u. live st' u \<longrightarrow> live st u)"
proof -
  let ?w = "workers st ! t"
  let ?M = "sum_list (map worker_measure (workers st))"
  have t: "t < length (workers st)" using assms(4) by (simp add: live_def)
  have upd: "sum_list (map worker_measure ((workers st)[t := w])) + worker_measure ?w
      = ?M + worker_measure w" for w
    by (rule sum_list_map_update [OF t])
  have mono: "\<forall>u. live st' u \<longrightarrow> live st u"
    if "workers st' = (workers st)[t := w]" for st' w
  proof (intro allI impI)
    fix u assume "live st' u"
    then show "live st u"
      using that assms(4) live_update_other [OF that, of u] by (cases "u = t") simp_all
  qed
  from assms(5,1-4) show ?thesis
  proof (cases rule: step_cases [where f = f])
    case stop
    have "measure_state dims (returned t st) < measure_state dims st"
      using upd [of "?w\<lparr>wpc := Returned\<rparr>"] stop(1)
      by (simp add: measure_state_def worker_measure_def)
    then show ?thesis
      using stop(3) wf_returned [OF assms(3)] mono [of "returned t st"] by simp
  next
    case publish
    let ?st = "returned t (st\<lparr>sharedErr := localErr ?w\<rparr>)"
    have "measure_state dims ?st < measure_state dims st"
      using upd [of "?w\<lparr>wpc := Returned\<rparr>"] publish(1)
      by (simp add: measure_state_def worker_measure_def)
    then show ?thesis
      using publish(4) wf_published [OF assms(3)] mono [of ?st] by simp
  next
    case exhausted
    have "measure_state dims (returned t st) < measure_state dims st"
      using upd [of "?w\<lparr>wpc := Returned\<rparr>"] exhausted(1)
      by (simp add: measure_state_def worker_measure_def)
    then show ?thesis
      using exhausted(5) wf_returned [OF assms(3)] mono [of "returned t st"] by simp
  next
    case claim
    let ?st = "claimed dims opts t st"
    have "measure_state dims ?st < measure_state dims st"
      using upd [of "?w\<lparr>localIndex := sharedIndex st, localPoint := sharedPoint st,
          localEnd := min (sharedIndex st + OpsPerThread opts) (total dims), wpc := InBatch\<rparr>"]
        claim(1,4) assms(2)
      by (simp add: measure_state_def worker_measure_def min_def split: if_splits)
    then show ?thesis
      using claim(5) wf_claimed [OF assms(3,2) claim(4)] mono [of ?st] by simp
  next
    case visit
    let ?st = "visited dims f t st"
    have "measure_state dims ?st < measure_state dims st"
      using upd [of "workers ?st ! t"] t visit(1-3)
      by (simp add: measure_state_def worker_measure_def split: if_splits)
    then show ?thesis
      using visit(6) wf_visited [OF assms(3) visit(2,4,3)] mono [of ?st] by simp
  qed
qed

lemma run_schedule_wf:
  assumes "positive dims" "1 \<le> OpsPerThread opts" "no_overflow dims opts"
  shows "wf_state dims opts st \<Longrightarrow>
    \<exists>st'. run_schedule False (interp_of dims) (Some f) opts sched st = Inr st' \<and>
      wf_state dims opts st' \<and> length (workers st') = length (workers st) \<and>
      (\<forall>u. live st' u \<longrightarrow>
         live st u \<and> measure_state dims st' + count_list sched u \<le> measure_state dims st)"
proof (induction sched arbitrary: st)
  case Nil
  then show ?case by simp
next
  case (Cons t ts)
  show ?case
  proof (cases "live st t")
    case True
    from step_progress [OF assms(1,2) Cons.prems True assms(3), of f] obtain st1 where
      s1: "step False (interp_of dims) (Some f) opts t st = Inr st1" "wf_state dims opts st1"
        "measure_state dims st1 < measure_state dims st"
        "length (workers st1) = length (workers st)" "\<forall>u. live st1 u \<longrightarrow> live st u"
      by blast
    from Cons.IH [OF s1(2)] obtain st' where
      s': "run_schedule False (interp_of dims) (Some f) opts ts st1 = Inr st'"
        "wf_state dims opts st'" "length (workers st') = length (workers st1)"
        "\<forall>u. live st' u \<longrightarrow>
           live st1 u \<and> measure_state dims st' + count_list ts u \<le> measure_state dims st1"
      by blast
    have "\<forall>u. live st' u \<longrightarrow>
         live st u \<and> measure_state dims st' + count_list (t # ts) u \<le> measure_state dims st"
      using s'(4) s1(3,5) by fastforce
    then show ?thesis using s1(1,4) s'(1-3) by simp
  next
    case False
    then have s1: "step False (interp_of dims) (Some f) opts t st = Inr st"
      by (rule step_idle)
    from Cons.IH [OF Cons.prems] obtain st' where
      s': "run_schedule False (interp_of dims) (Some f) opts ts st = Inr st'"
        "wf_state dims opts st'" "length (workers st') = length (workers st)"
        "\<forall>u. live st' u \<longrightarrow>
           live st u \<and> measure_state dims st' + count_list ts u \<le> measure_state dims st"
      by blast
    have "\<forall>u. live st' u \<longrightarrow>
         live st u \<and> measure_state dims st' + count_list (t # ts) u \<le> measure_state dims st"
      using s'(4) False by auto
    then show ?thesis using s1 s'(1-3) by simp
  qed
qed

lemma fill_options_interp:
  assumes "positive dims" "fill_options (interp_of dims) options = Inr opts"
  shows "1 \<le> OpsPerThread opts \<and> 1 \<le> NumThreads opts"
proof (cases options)
  case None
  then show ?thesis
    using assms total_pos [OF assms(1)]
    by (auto simp: fill_options_def Size_interp positive_def)
next
  case (Some a)
  then show ?thesis using assms(2) by (auto simp: fill_options_def)
qed

lemma all_returned_iff: "all_returned st \<longleftrightarrow> (\<forall>t. \<not> live st t)"
  by (auto simp: all_returned_def live_def list_all_length)

lemma measure_initial:
  "measure_state dims (initial (interp_of dims) opts) =
     3 * nat (total dims) + nat (NumThreads opts)"
  by (simp add: measure_state_def initial_def worker_measure_def sum_list_replicate comp_def)

lemma run_initial:
  assumes "positive dims" "1 \<le> OpsPerThread opts" "no_overflow dims opts"
  shows "\<exists>st'. run_schedule False (interp_of dims) (Some f) opts sched (initial (interp_of dims) opts)
        = Inr st' \<and>
      wf_state dims opts st' \<and> length (workers st') = nat (NumThreads opts) \<and>
      ((\<forall>t<nat (NumThreads opts). 3 * nat (total dims) + nat (NumThreads opts) \<le> count_list sched t)
         \<longrightarrow> all_returned st')"
proof -
  let ?st0 = "initial (interp_of dims) opts"
  from run_schedule_wf [OF assms wf_initial [of dims opts], where f = f and sched = sched] obtain st' where
    s': "run_schedule False (interp_of dims) (Some f) opts sched ?st0 = Inr st'"
      "wf_state dims opts st'" "length (workers st') = length (workers ?st0)"
      "\<forall>u. live st' u \<longrightarrow>
         live ?st0 u \<and> measure_state dims st' + count_list sched u \<le> measure_state dims ?st0"
    by blast
  have len: "length (workers st') = nat (NumThreads opts)"
    using s'(3) by (simp add: initial_def)
  have "all_returned st'"
    if fair: "\<forall>t<nat (NumThreads opts). 3 * nat (total dims) + nat (NumThreads opts) \<le> count_list sched t"
  proof -
    have "\<not> live st' u" for u
    proof
      assume l: "live st' u"
      then have "u < nat (NumThreads opts)" using len by (simp add: live_def)
      then have "measure_state dims ?st0 \<le> count_list sched u"
        using fair by (simp add: measure_initial)
      moreover have "measure_state dims st' + count_list sched u \<le> measure_state dims ?st0"
        using s'(4) l by blast
      ultimately have "measure_state dims st' = 0" by simp
      then show False using live_measure_pos [OF l, of dims] by simp
    qed
    then show ?thesis by (simp add: all_returned_iff)
  qed
  then show ?thesis using s'(1,2) len by blast
qed

section \<open>Every index once\<close>

lemma count_list_snoc: "count_list (xs @ [x]) y = count_list xs y + (if x = y then 1 else 0)"
  by (induction xs) auto

lemma visit_inv_step:
  assumes "positive dims" "1 \<le> OpsPerThread opts" "no_overflow dims opts"
    "visit_inv dims opts st" "live st t"
  shows "\<exists>st'. step False (interp_of dims) (Some f) opts t st = Inr st' \<and> visit_inv dims opts st'"
proof -
  let ?w = "workers st ! t"
  have wf: "wf_state dims opts st"
    and vis: "\<And>i. visits st i = (if 0 \<le> i \<and> i < sharedIndex st \<and> i < total dims then 1 else 0)"
    and cs: "\<forall>c\<in>set (calls st). fst c = decode dims (snd c) \<and> 0 \<le> snd c \<and> snd c < total dims"
    using assms(4) by (simp_all add: visit_inv_def)
  have t: "t < length (workers st)" using assms(5) by (simp add: live_def)
  have x0: "0 \<le> sharedIndex st" using wf by (simp add: wf_state_def)
  have upd: "sum_list (map (\<lambda>w. pend w i) ((workers st)[t := w])) + pend ?w i
      = sum_list (map (\<lambda>w. pend w i) (workers st)) + pend w i" for w i
    by (rule sum_list_map_update [OF t])
  have leave: "visits (returned t st') i = visits st i"
    if "wpc ?w = AtLock" "workers st' = workers st" "calls st' = calls st" for st' i
    using upd [of i "?w\<lparr>wpc := Returned\<rparr>"] that by (simp add: visits_def pend_def)
  from assms(3,1,2) wf assms(5) show ?thesis
  proof (cases rule: step_cases [where f = f])
    case stop
    have "visit_inv dims opts (returned t st)"
      using wf_returned [OF wf, of t] vis cs leave [OF stop(1), of st] by (simp add: visit_inv_def)
    then show ?thesis using stop(3) by simp
  next
    case publish
    let ?st = "returned t (st\<lparr>sharedErr := localErr ?w\<rparr>)"
    have "visit_inv dims opts ?st"
      using wf_published [OF wf, of t "localErr ?w"] vis cs
        leave [OF publish(1), of "st\<lparr>sharedErr := localErr ?w\<rparr>"]
      by (simp add: visit_inv_def)
    then show ?thesis using publish(4) by simp
  next
    case exhausted
    have "visit_inv dims opts (returned t st)"
      using wf_returned [OF wf, of t] vis cs leave [OF exhausted(1), of st]
      by (simp add: visit_inv_def)
    then show ?thesis using exhausted(5) by simp
  next
    case claim
    let ?st = "claimed dims opts t st"
    let ?n = "?w\<lparr>localIndex := sharedIndex st, localPoint := sharedPoint st,
          localEnd := min (sharedIndex st + OpsPerThread opts) (total dims), wpc := InBatch\<rparr>"
    have "visits ?st i = (if 0 \<le> i \<and> i < sharedIndex ?st \<and> i < total dims then 1 else 0)" for i
      using upd [of i ?n] claim(1,4) vis [of i] x0 assms(2)
      by (simp add: visits_def pend_def split: if_splits)
    then have "visit_inv dims opts ?st"
      using wf_claimed [OF wf assms(2) claim(4), of t] cs by (simp add: visit_inv_def)
    then show ?thesis using claim(5) by simp
  next
    case visit
    let ?st = "visited dims f t st"
    let ?n = "?w\<lparr>
          localErr := (case f (localPoint ?w) (localIndex ?w) of
                         None \<Rightarrow> localErr ?w | Some e \<Rightarrow> Some e),
          localIndex := localIndex ?w + 1,
          localPoint := (if localIndex ?w + 1 = localEnd ?w
                         then localPoint ?w else decode dims (localIndex ?w + 1)),
          wpc := (if localIndex ?w + 1 = localEnd ?w then AtLock else InBatch)\<rparr>"
    have "visits ?st i = visits st i" for i
    proof -
      define S where "S = sum_list (map (\<lambda>w. pend w i) (workers st))"
      define S' where "S' = sum_list (map (\<lambda>w. pend w i) ((workers st)[t := ?n]))"
      have pn: "pend ?n i = (if localIndex ?w + 1 \<le> i \<and> i < localEnd ?w then 1 else 0)"
        using visit(3) by (auto simp: pend_def)
      have po: "pend ?w i = (if localIndex ?w \<le> i \<and> i < localEnd ?w then 1 else 0)"
        using visit(1) by (simp add: pend_def)
      have "S' + pend ?w i = S + pend ?n i"
        unfolding S_def S'_def by (rule upd)
      moreover have "visits ?st i =
          count_list (map snd (calls st)) i + (if localIndex ?w = i then 1 else 0) + S'"
        unfolding S'_def visits_def by (simp add: count_list_snoc)
      moreover have "visits st i = count_list (map snd (calls st)) i + S"
        unfolding S_def visits_def by simp
      ultimately show ?thesis
        using visit(3) by (simp add: pn po split: if_splits)
    qed
    moreover have "\<forall>c\<in>set (calls ?st). fst c = decode dims (snd c) \<and> 0 \<le> snd c \<and> snd c < total dims"
      using cs visit(2-5) by auto
    ultimately have "visit_inv dims opts ?st"
      using wf_visited [OF wf visit(2,4,3), of f] vis by (simp add: visit_inv_def)
    then show ?thesis using visit(6) by simp
  qed
qed

lemma once_inv_step:
  assumes "positive dims" "1 \<le> OpsPerThread opts" "no_overflow dims opts" "\<forall>p i. f p i = None"
    "once_inv dims opts st" "live st t"
  shows "\<exists>st'. step False (interp_of dims) (Some f) opts t st = Inr st' \<and> once_inv dims opts st'"
proof -
  let ?w = "workers st ! t"
  have vi: "visit_inv dims opts st" and noerr: "sharedErr st = None"
    and ws: "\<forall>w\<in>set (workers st). localErr w = None \<and> (wpc w = Returned \<longrightarrow> total dims \<le> sharedIndex st)"
    using assms(5) by (simp_all add: once_inv_def)
  have wf: "wf_state dims opts st" using vi by (simp add: visit_inv_def)
  have t: "t < length (workers st)" using assms(6) by (simp add: live_def)
  then have wt: "?w \<in> set (workers st)" by simp
  have nolocal: "localErr ?w = None" using ws wt by blast
  have sub: "v = w \<or> v \<in> set (workers st)" if "v \<in> set ((workers st)[t := w])" for v w
    using that set_update_subset_insert [of "workers st" t w] by blast
  from visit_inv_step [OF assms(1,2,3) vi assms(6), of f] obtain st' where
    s: "step False (interp_of dims) (Some f) opts t st = Inr st'" "visit_inv dims opts st'"
    by blast
  from assms(3,1,2) wf assms(6)
  have "sharedErr st' = None \<and>
    (\<forall>w\<in>set (workers st'). localErr w = None \<and> (wpc w = Returned \<longrightarrow> total dims \<le> sharedIndex st'))"
  proof (cases rule: step_cases [where f = f])
    case stop
    then show ?thesis using noerr by simp
  next
    case publish
    then show ?thesis using nolocal by simp
  next
    case exhausted
    then have "st' = returned t st" using s(1) by simp
    then show ?thesis using ws nolocal exhausted(4) noerr by (auto dest!: sub)
  next
    case claim
    then have "st' = claimed dims opts t st" using s(1) by simp
    then show ?thesis using ws nolocal assms(2) by (fastforce dest!: sub)
  next
    case visit
    have fn: "f (localPoint ?w) (localIndex ?w) = None" using assms(4) by simp
    have "st' = visited dims f t st" using visit(6) s(1) by simp
    then show ?thesis using ws nolocal t fn noerr by (auto dest!: sub)
  qed
  then show ?thesis using s by (simp add: once_inv_def)
qed

lemma visit_inv_run:
  assumes "positive dims" "1 \<le> OpsPerThread opts" "no_overflow dims opts"
  shows "visit_inv dims opts st \<Longrightarrow>
    \<exists>st'. run_schedule False (interp_of dims) (Some f) opts sched st = Inr st' \<and>
      visit_inv dims opts st'"
proof (induction sched arbitrary: st)
  case Nil
  then show ?case by simp
next
  case (Cons t ts)
  show ?case
  proof (cases "live st t")
    case True
    from visit_inv_step [OF assms Cons.prems True, of f] obtain st1 where
      "step False (interp_of dims) (Some f) opts t st = Inr st1" "visit_inv dims opts st1" by blast
    then show ?thesis using Cons.IH [of st1] by simp
  next
    case False
    then show ?thesis using Cons.IH [OF Cons.prems] by (simp add: step_idle)
  qed
qed

lemma once_inv_run:
  assumes "positive dims" "1 \<le> OpsPerThread opts" "no_overflow dims opts" "\<forall>p i. f p i = None"
  shows "once_inv dims opts st \<Longrightarrow>
    \<exists>st'. run_schedule False (interp_of dims) (Some f) opts sched st = Inr st' \<and>
      once_inv dims opts st'"
proof (induction sched arbitrary: st)
  case Nil
  then show ?case by simp
next
  case (Cons t ts)
  show ?case
  proof (cases "live st t")
    case True
    from once_inv_step [OF assms Cons.prems True] obtain st1 where
      "step False (interp_of dims) (Some f) opts t st = Inr st1" "once_inv dims opts st1" by blast
    then show ?thesis using Cons.IH [of st1] by simp
  next
    case False
    then show ?thesis using Cons.IH [OF Cons.prems] by (simp add: step_idle)
  qed
qed

lemma visit_inv_initial: "visit_inv dims opts (initial (interp_of dims) opts)"
  using wf_initial [of dims opts]
  by (simp add: visit_inv_def visits_def initial_def pend_def sum_list_replicate comp_def)

lemma once_inv_initial: "once_inv dims opts (initial (interp_of dims) opts)"
  using visit_inv_initial [of dims opts] by (simp add: once_inv_def initial_def)

lemma visit_inv_final:
  assumes "visit_inv dims opts st" "all_returned st"
  shows "count_list (map snd (calls st)) i =
    (if 0 \<le> i \<and> i < sharedIndex st \<and> i < total dims then 1 else 0)"
proof -
  have r: "\<forall>w\<in>set (workers st). wpc w = Returned"
    using assms(2) by (simp add: all_returned_def list_all_iff)
  then have s0: "sum_list (map (\<lambda>w. pend w i) (workers st)) = 0"
    by (simp add: pend_def)
  have "visits st i = (if 0 \<le> i \<and> i < sharedIndex st \<and> i < total dims then 1 else 0)"
    using assms(1) by (simp add: visit_inv_def)
  then show ?thesis by (simp add: visits_def s0)
qed

lemma once_inv_final:
  assumes "once_inv dims opts st" "all_returned st" "workers st \<noteq> []"
  shows "count_list (map snd (calls st)) i = (if 0 \<le> i \<and> i < total dims then 1 else 0)"
proof -
  have r: "\<forall>w\<in>set (workers st). wpc w = Returned"
    using assms(2) by (simp add: all_returned_def list_all_iff)
  have "total dims \<le> sharedIndex st"
    using assms(1,3) r by (cases "workers st") (auto simp: once_inv_def)
  moreover have "visit_inv dims opts st" using assms(1) by (simp add: once_inv_def)
  ultimately show ?thesis using visit_inv_final [OF _ assms(2), of dims opts i] by simp
qed

lemma fill_options_total:
  assumes "positive dims"
  shows "\<exists>opts. fill_options (interp_of dims) options = Inr opts"
  using assms by (cases options) (simp_all add: fill_options_def Size_interp positive_def)

section \<open>A single worker\<close>

lemma last_failure_None:
  "last_failure F a k = None \<longleftrightarrow> (\<forall>j<k. F (a + int j) = None)"
  by (induction k) (auto simp: less_Suc_eq split: option.splits)

lemma last_failure_Some:
  "last_failure F a k = Some e \<Longrightarrow>
   \<exists>l<k. F (a + int l) = Some e \<and> (\<forall>j. l < j \<and> j < k \<longrightarrow> F (a + int j) = None)"
proof (induction k)
  case 0
  then show ?case by simp
next
  case (Suc k)
  show ?case
  proof (cases "F (a + int k)")
    case None
    then have "last_failure F a k = Some e" using Suc.prems by simp
    then obtain l where l: "l < k" "F (a + int l) = Some e"
      "\<forall>j. l < j \<and> j < k \<longrightarrow> F (a + int j) = None"
      using Suc.IH by blast
    have "\<forall>j. l < j \<and> j < Suc k \<longrightarrow> F (a + int j) = None"
      using l(3) None by (auto simp: less_Suc_eq)
    then show ?thesis using l(1,2) by (intro exI [of _ l]) simp
  next
    case (Some e')
    then have "e' = e" using Suc.prems by simp
    then show ?thesis using Some by (intro exI [of _ k]) auto
  qed
qed

lemma in_order_snoc:
  "in_order dims cs \<Longrightarrow> in_order dims (cs @ [(decode dims (int (length cs)), int (length cs))])"
  by (simp add: in_order_def)

lemma clean_extend:
  assumes "clean dims f b" "0 \<le> b" "b \<le> c"
    "last_failure (\<lambda>i. f (decode dims i) i) b (nat (c - b)) = None"
  shows "clean dims f c"
  unfolding clean_def
proof (intro allI impI)
  fix i assume i: "0 \<le> i \<and> i < c"
  show "f (decode dims i) i = None"
  proof (cases "i < b")
    case True
    then show ?thesis using assms(1) i by (simp add: clean_def)
  next
    case False
    then have "nat (i - b) < nat (c - b)" "b + int (nat (i - b)) = i" using i by simp_all
    then show ?thesis using assms(4) unfolding last_failure_None by metis
  qed
qed

lemma batch_err_cong:
  "sharedIndex st' = sharedIndex st \<Longrightarrow> length (calls st') = length (calls st) \<Longrightarrow>
   batch_err dims f opts st' e = batch_err dims f opts st e"
  by (simp add: batch_err_def)

lemma single_inv_step:
  assumes "positive dims" "1 \<le> OpsPerThread opts" "single_inv dims f opts st" "live st t"
    "no_overflow dims opts"
  shows "\<exists>st'. step False (interp_of dims) (Some f) opts t st = Inr st' \<and> single_inv dims f opts st'"
proof -
  let ?w = "workers st ! 0"
  let ?c = "int (length (calls st))"
  let ?x = "sharedIndex st"
  let ?ops = "OpsPerThread opts"
  let ?F = "\<lambda>i. f (decode dims i) i"
  have wf: "wf_state dims opts st" and len: "length (workers st) = 1"
    and ord: "in_order dims (calls st)" and dv: "?ops dvd ?x"
    and atlock: "wpc ?w = AtLock \<Longrightarrow>
        sharedErr st = None \<and> ?c = min ?x (total dims) \<and>
        (if localErr ?w = None then clean dims f ?c else batch_err dims f opts st (localErr ?w))"
    and inbatch: "wpc ?w = InBatch \<Longrightarrow>
        sharedErr st = None \<and> localIndex ?w = ?c \<and> localEnd ?w = min ?x (total dims) \<and>
        batch_err dims f opts st (localErr ?w)"
    using assms(3) unfolding single_inv_def by blast+
  have t: "t = 0" using assms(4) len by (simp add: live_def)
  have x0: "0 \<le> ?x" using wf by (simp add: wf_state_def)
  have nth0: "(workers st)[0 := w] ! 0 = w" for w using len by simp
  have live0: "live st 0" using assms(4) t by simp
  from assms(5,1,2) wf live0
  have "\<exists>st'. step False (interp_of dims) (Some f) opts 0 st = Inr st' \<and> single_inv dims f opts st'"
  proof (cases rule: step_cases [where f = f])
    case stop
    then show ?thesis using atlock by simp
  next
    case publish
    let ?st = "returned 0 (st\<lparr>sharedErr := localErr ?w\<rparr>)"
    have a: "?c = min ?x (total dims)" "batch_err dims f opts st (localErr ?w)"
      using atlock [OF publish(1)] publish(3) by auto
    have "batch_err dims f opts ?st (localErr ?w)"
      using a(2) by (subst batch_err_cong [where st = st]) simp_all
    then have "single_inv dims f opts ?st"
      using wf_published [OF wf, of 0 "localErr ?w"] len ord dv a(1) publish(3)
      by (auto simp: single_inv_def nth0)
    then show ?thesis using publish(4) by blast
  next
    case exhausted
    let ?st = "returned 0 st"
    have a: "?c = min ?x (total dims)" "clean dims f ?c"
      using atlock [OF exhausted(1)] exhausted(3) by auto
    then have "?c = total dims" using exhausted(4) by simp
    then have "single_inv dims f opts ?st"
      using wf_returned [OF wf, of 0] len ord dv a(2) exhausted(2)
      by (simp add: single_inv_def nth0)
    then show ?thesis using exhausted(5) by blast
  next
    case claim
    let ?st = "claimed dims opts 0 st"
    have a: "?c = min ?x (total dims)" "clean dims f ?c"
      using atlock [OF claim(1)] claim(3) by auto
    then have cx: "?c = ?x" using claim(4) by simp
    have "batch_err dims f opts ?st None"
      using x0 a(2) cx by (simp add: batch_err_def)
    then have "single_inv dims f opts ?st"
      using wf_claimed [OF wf assms(2) claim(4), of 0] len ord dv cx claim(3)
      by (simp add: single_inv_def nth0)
    then show ?thesis using claim(5) by blast
  next
    case visit
    let ?st = "visited dims f 0 st"
    let ?bs = "?x - ?ops"
    let ?e = "case f (localPoint ?w) (localIndex ?w) of None \<Rightarrow> localErr ?w | Some e \<Rightarrow> Some e"
    have a: "sharedErr st = None" "localIndex ?w = ?c" "localEnd ?w = min ?x (total dims)"
      "batch_err dims f opts st (localErr ?w)"
      using inbatch [OF visit(1)] by auto
    have b: "0 \<le> ?bs" "?bs \<le> ?c" "clean dims f ?bs"
      "localErr ?w = last_failure ?F ?bs (nat (?c - ?bs))"
      using a(4) by (simp_all add: batch_err_def)
    have lp: "localPoint ?w = decode dims ?c" using visit(5) a(2) by simp
    have n: "nat (?c + 1 - ?bs) = Suc (nat (?c - ?bs))" using b(2) by simp
    have eqc: "?bs + int (nat (?c - ?bs)) = ?c" using b(2) by simp
    have e: "?e = last_failure ?F ?bs (nat (?c + 1 - ?bs))"
    proof -
      have "?e = (case ?F ?c of None \<Rightarrow> localErr ?w | Some e \<Rightarrow> Some e)"
        by (simp only: lp a(2))
      also have "\<dots> = (case ?F (?bs + int (nat (?c - ?bs))) of
            None \<Rightarrow> last_failure ?F ?bs (nat (?c - ?bs)) | Some e \<Rightarrow> Some e)"
        by (simp only: eqc b(4) [symmetric])
      also have "\<dots> = last_failure ?F ?bs (Suc (nat (?c - ?bs)))"
        by (simp split: option.splits)
      finally show ?thesis unfolding n .
    qed
    have be: "batch_err dims f opts ?st ?e"
      using b(1-3) e by (simp add: batch_err_def add.commute)
    have ord': "in_order dims (calls ?st)"
      using in_order_snoc [OF ord] lp a(2) by simp
    have wf': "wf_state dims opts ?st" by (rule wf_visited [OF wf visit(2,4,3)])
    have c': "int (length (calls ?st)) = ?c + 1" by simp
    show ?thesis
    proof (cases "localIndex ?w + 1 = localEnd ?w")
      case True
      then have m: "?c + 1 = min ?x (total dims)" using a(2,3) by simp
      have "clean dims f (?c + 1)" if "?e = None"
        using that e b(1,2) by (intro clean_extend [OF b(3)]) simp_all
      then have "single_inv dims f opts ?st"
        using wf' len ord' dv a(1) m be True c'
        by (simp add: single_inv_def nth0 del: visited_simps(5))
      then show ?thesis using visit(6) by blast
    next
      case False
      then have "single_inv dims f opts ?st"
        using wf' len ord' dv a(1-3) be c'
        by (simp add: single_inv_def nth0 del: visited_simps(5))
      then show ?thesis using visit(6) by blast
    qed
  qed
  then show ?thesis using t by simp
qed

lemma single_inv_run:
  assumes "positive dims" "1 \<le> OpsPerThread opts" "no_overflow dims opts"
  shows "single_inv dims f opts st \<Longrightarrow>
    \<exists>st'. run_schedule False (interp_of dims) (Some f) opts sched st = Inr st' \<and>
      single_inv dims f opts st'"
proof (induction sched arbitrary: st)
  case Nil
  then show ?case by simp
next
  case (Cons t ts)
  show ?case
  proof (cases "live st t")
    case True
    from single_inv_step [OF assms(1,2) Cons.prems True assms(3)] obtain st1 where
      "step False (interp_of dims) (Some f) opts t st = Inr st1" "single_inv dims f opts st1"
      by blast
    then show ?thesis using Cons.IH [of st1] by simp
  next
    case False
    then show ?thesis using Cons.IH [OF Cons.prems] by (simp add: step_idle)
  qed
qed

lemma single_inv_initial:
  assumes "positive dims" "NumThreads opts = 1"
  shows "single_inv dims f opts (initial (interp_of dims) opts)"
  using wf_initial [of dims opts] assms total_pos [OF assms(1)]
  by (auto simp: single_inv_def initial_def in_order_def clean_def)

lemma block_start:
  fixes ops b j :: int
  assumes "1 \<le> ops" "ops dvd b" "b \<le> j" "j < b + ops"
  shows "(j div ops) * ops = b"
proof -
  obtain k where k: "b = ops * k" using assms(2) by (auto simp: dvd_def)
  have "((j - b) + ops * k) div ops = k + (j - b) div ops"
    using assms(1) by (intro div_mult_self2) simp
  then have "j div ops = (j - b) div ops + k" using k by simp
  moreover have "(j - b) div ops = 0"
    using assms by (intro div_pos_pos_trivial) simp_all
  ultimately show ?thesis using k by simp
qed

lemma single_result:
  assumes "positive dims" "fill_options (interp_of dims) options = Inr opts" "NumThreads opts = 1"
    "no_overflow dims opts"
  shows "\<exists>st. run_schedule False (interp_of dims) (Some f) opts sched (initial (interp_of dims) opts)
            = Inr st \<and> single_inv dims f opts st \<and>
          MapApplySafe (interp_of dims) (Some f) options sched =
            Inr (if all_returned st then Some (sharedErr st, calls st) else None)"
proof -
  have ops: "1 \<le> OpsPerThread opts" using fill_options_interp [OF assms(1,2)] by simp
  from single_inv_run [OF assms(1) ops assms(4) single_inv_initial [OF assms(1,3)],
      where sched = sched and f = f]
  obtain st where st: "run_schedule False (interp_of dims) (Some f) opts sched (initial (interp_of dims) opts)
            = Inr st" "single_inv dims f opts st"
    by blast
  then show ?thesis using assms(2) by (auto simp: MapApplySafe_def generalMapApply_def)
qed

lemma in_order_calls:
  assumes "positive dims" "in_order dims cs" "int (length cs) \<le> total dims"
    "total dims < 2 ^ 63"
  shows "map snd cs = map int [0..<length cs] \<and>
    (\<forall>c\<in>set cs. PointSafe (interp_of dims) (snd c) = Inr (fst c, None))"
proof -
  have cs: "cs = map (\<lambda>k. (decode dims (int k), int k)) [0..<length cs]"
    using assms(2) by (simp add: in_order_def)
  have "map snd cs = map snd (map (\<lambda>k. (decode dims (int k), int k)) [0..<length cs])"
    using cs by simp
  then have a: "map snd cs = map int [0..<length cs]" by (simp add: comp_def)
  have "PointSafe (interp_of dims) (snd c) = Inr (fst c, None)" if "c \<in> set cs" for c
  proof -
    from that obtain k where k: "k < length cs" "cs ! k = c"
      by (auto simp: in_set_conv_nth)
    have "cs ! k = map (\<lambda>k. (decode dims (int k), int k)) [0..<length cs] ! k"
      by (rule arg_cong [OF cs, of "\<lambda>xs. xs ! k"])
    then have "c = (decode dims (int k), int k)" using k by simp
    moreover have "int k < total dims" using k(1) assms(3) by simp
    ultimately show ?thesis using PointSafe_interp [OF assms(1) _ _ assms(4), of "int k"] by simp
  qed
  then show ?thesis using a by blast
qed

lemma interp_2: "NewInterpreterSafe [2] = (\<lparr>Dims = [2], Sizes = [2]\<rparr>, None)"
  by (simp add: NewInterpreterSafe_def sizes_loop.simps wrap_def)

lemma single_returned:
  assumes "single_inv dims f opts st" "all_returned st"
  shows "wpc (workers st ! 0) = Returned"
  using assms by (cases "workers st") (simp_all add: single_inv_def all_returned_def)

section \<open>The Interpreter as the machine builds it\<close>

lemma too_big_cases:
  fixes s c :: int
  assumes "- (2 ^ 63) \<le> s" "s < 2 ^ 63" "\<bar>c\<bar> \<ge> s"
  shows "c \<ge> s \<or> c \<le> wrap (- s)"
proof (cases "s = - (2 ^ 63)")
  case True
  have "wrap (2 ^ 63) = - (2 ^ 63)" by (simp add: wrap_def)
  then show ?thesis using True by auto
next
  case False
  then have "wrap (- s) = - s" using assms(1,2) by (intro wrap_id) simp_all
  then show ?thesis using assms(3) by auto
qed

lemma built_simps [simp]:
  "Dims (built dims) = dims" "Sizes (built dims) = wsizes dims"
  by (simp_all add: built_def)

lemma length_wsizes [simp]: "length (wsizes dims) = length dims"
  by (simp add: wsizes_def)

lemma Size_built: "dims \<noteq> [] \<Longrightarrow> Size (built dims) = Inr (wrap (total dims))"
  by (simp add: Size_def wsizes_def total_def)

lemma IndexSafe_built:
  assumes "positive dims" "\<forall>d\<in>set dims. d < 2 ^ 63" "in_shape dims p"
  shows "IndexSafe (built dims) p =
    Inr (wrap (p ! 0 + (\<Sum>j = 1..<length dims. p ! j * wsizes dims ! (j - 1))), None)"
proof -
  have ne: "dims \<noteq> []" and len: "length p = length dims"
    using assms(1,3) by (simp_all add: positive_def in_shape_def)
  have "0 \<le> p ! 0" "p ! 0 < dims ! 0" using assms(3) ne by (simp_all add: in_shape_def)
  moreover have "dims ! 0 < 2 ^ 63" using assms(2) ne by simp
  ultimately have r: "- (2 ^ 63) \<le> p ! 0" "p ! 0 < 2 ^ 63" by simp_all
  have "CheckPoint (built dims) p = Inr None"
    using assms CheckPoint_built by simp
  moreover have "IndexFast (built dims) p =
      Inr (wrap (p ! 0 + (\<Sum>j = 1..<length dims. p ! j * wsizes dims ! (j - 1))))"
    using IndexFast_wrap [of p "built dims", OF _ _ r] ne len by simp
  ultimately show ?thesis by (simp add: IndexSafe_def)
qed

lemma encode_sizes:
  assumes "dims \<noteq> []"
  shows "encode dims p = p ! 0 + (\<Sum>j = 1..<length dims. p ! j * sizes_of dims ! (j - 1))"
proof -
  have "(\<Sum>j = 1..<length dims. p ! j * sizes_of dims ! (j - 1))
      = (\<Sum>j = 1..<length dims. p ! j * stride dims j)"
    by (intro sum.cong) auto
  moreover have "{..<length dims} = insert 0 {1..<length dims}"
    using assms by auto
  then have "encode dims p = p ! 0 + (\<Sum>j = 1..<length dims. p ! j * stride dims j)"
    by (simp add: encode_def)
  ultimately show ?thesis by simp
qed

lemma wrap_index_sum:
  assumes "dims \<noteq> []"
  shows "wrap (p ! 0 + (\<Sum>j = 1..<length dims. p ! j * wsizes dims ! (j - 1)))
    = wrap (encode dims p)"
proof (rule wrap_cong)
  let ?S = "\<Sum>j = 1..<length dims. p ! j * wsizes dims ! (j - 1)"
  let ?T = "\<Sum>j = 1..<length dims. p ! j * stride dims j"
  have "?S mod 2 ^ 64 = ?T mod 2 ^ 64"
  proof (rule sum_mod_cong)
    fix j assume "j \<in> {1..<length dims}"
    then obtain k where k: "j = Suc k" "k < length dims" by (cases j) auto
    then have "wsizes dims ! (j - 1) = wrap (stride dims j)" by (simp add: wsizes_def)
    then show "(p ! j * wsizes dims ! (j - 1)) mod 2 ^ 64 = (p ! j * stride dims j) mod 2 ^ 64"
      by (simp only: wrap_mult_right_mod)
  qed
  then have "(p ! 0 + ?S mod 2 ^ 64) mod 2 ^ 64 = (p ! 0 + ?T mod 2 ^ 64) mod 2 ^ 64"
    by simp
  then have "(p ! 0 + ?S) mod 2 ^ 64 = (p ! 0 + ?T) mod 2 ^ 64"
    by (simp only: mod_add_right_eq)
  moreover have "{..<length dims} = insert 0 {1..<length dims}"
    using assms by auto
  then have "encode dims p = p ! 0 + ?T"
    by (simp add: encode_def)
  ultimately show "(p ! 0 + ?S) mod 2 ^ 64 = encode dims p mod 2 ^ 64" by simp
qed

lemma IndexSafe_built_encode:
  assumes "positive dims" "\<forall>d\<in>set dims. d < 2 ^ 63" "in_shape dims p"
  shows "IndexSafe (built dims) p = Inr (wrap (encode dims p), None)"
proof -
  have ne: "dims \<noteq> []" using assms(1) by (simp add: positive_def)
  show ?thesis
    using IndexSafe_built [OF assms] by (simp only: wrap_index_sum [OF ne])
qed

section \<open>Claims about the Interpreter\<close>

text \<open>
  C7, as the code has it. The loop that fills \<open>Sizes\<close> multiplies machine integers and does
  not look for overflow. The dimensions \<open>[2^32, 2^32]\<close> are non-empty and positive and are
  accepted, and \<open>Sizes[1]\<close> is \<open>0\<close>, not the product \<open>2^64\<close> of the dimensions.
\<close>

theorem NewInterpreterSafe_overflow_counterexample:
  "NewInterpreterSafe [2 ^ 32, 2 ^ 32] =
     (\<lparr>Dims = [2 ^ 32, 2 ^ 32], Sizes = [2 ^ 32, 0]\<rparr>, None) \<and>
   prod_list [2 ^ 32, 2 ^ 32 :: int] = 2 ^ 64"
  by (simp add: NewInterpreterSafe_def sizes_loop.simps wrap_def)

text \<open>
  C7, amended. \<open>NewInterpreterSafe\<close> returns \<open>ErrZeroDims\<close> exactly when the dimension vector
  is empty; it returns a \<open>DimsValueError\<close> exactly when some entry is \<open>\<le> 0\<close>, and the error
  then names the vector and the first such axis; it returns no error exactly when the
  vector is non-empty and all-positive. For such a vector of \<open>int\<close>s, \<open>Sizes\<close> holds the
  cumulative products of \<open>Dims\<close> as the machine computes them, each brought into the range
  of \<open>int\<close> by \<open>wrap\<close>; these are the cumulative products themselves when the product of all
  dimensions is below \<open>2^63\<close>. Dims \<open>[1,0,2]\<close> fail reporting axis 1 and dims \<open>[]\<close> fail with
  \<open>ErrZeroDims\<close>.
\<close>

theorem NewInterpreterSafe_result:
  "(snd (NewInterpreterSafe dims) = Some ErrZeroDims \<longleftrightarrow> length dims = 0) \<and>
   (\<forall>ds i. snd (NewInterpreterSafe dims) = Some (DimsValueError ds i) \<longleftrightarrow>
      ds = dims \<and> i < length dims \<and> dims ! i \<le> 0 \<and> (\<forall>j<i. 0 < dims ! j)) \<and>
   (snd (NewInterpreterSafe dims) = None \<longleftrightarrow> dims \<noteq> [] \<and> (\<forall>d\<in>set dims. 0 < d)) \<and>
   (dims \<noteq> [] \<and> (\<forall>d\<in>set dims. 0 < d \<and> d < 2 ^ 63) \<longrightarrow>
      NewInterpreterSafe dims =
        (\<lparr>Dims = dims,
          Sizes = map (\<lambda>i. wrap (prod_list (take (Suc i) dims))) [0..<length dims]\<rparr>, None)) \<and>
   (dims \<noteq> [] \<and> (\<forall>d\<in>set dims. 0 < d) \<and> prod_list dims < 2 ^ 63 \<longrightarrow>
      NewInterpreterSafe dims =
        (\<lparr>Dims = dims, Sizes = map (\<lambda>i. prod_list (take (Suc i) dims)) [0..<length dims]\<rparr>, None)) \<and>
   NewInterpreterSafe [1, 0, 2] = (zero_Interpreter, Some (DimsValueError [1, 0, 2] 1)) \<and>
   NewInterpreterSafe [] = (zero_Interpreter, Some ErrZeroDims)"
proof (intro conjI allI)
  show "snd (NewInterpreterSafe dims) = Some ErrZeroDims \<longleftrightarrow> length dims = 0"
  proof -
    have "\<And>e. range_dims dims 0 dims = Some e \<Longrightarrow> e \<noteq> ErrZeroDims"
      by (auto simp: range_dims_Some)
    then show ?thesis
      by (auto simp: NewInterpreterSafe_def split: option.splits)
  qed
next
  fix ds i
  have "range_dims dims 0 dims = Some (DimsValueError ds i) \<longleftrightarrow>
        ds = dims \<and> i < length dims \<and> dims ! i \<le> 0 \<and> (\<forall>j<i. 0 < dims ! j)"
    by (auto simp: range_dims_Some)
  then show "snd (NewInterpreterSafe dims) = Some (DimsValueError ds i) \<longleftrightarrow>
      ds = dims \<and> i < length dims \<and> dims ! i \<le> 0 \<and> (\<forall>j<i. 0 < dims ! j)"
    by (cases "range_dims dims 0 dims") (auto simp: NewInterpreterSafe_def)
next
  show "snd (NewInterpreterSafe dims) = None \<longleftrightarrow> dims \<noteq> [] \<and> (\<forall>d\<in>set dims. 0 < d)"
    using range_dims_None [of dims 0 dims]
    by (cases "range_dims dims 0 dims") (auto simp: NewInterpreterSafe_def)
next
  show "dims \<noteq> [] \<and> (\<forall>d\<in>set dims. 0 < d \<and> d < 2 ^ 63) \<longrightarrow>
      NewInterpreterSafe dims =
        (\<lparr>Dims = dims,
          Sizes = map (\<lambda>i. wrap (prod_list (take (Suc i) dims))) [0..<length dims]\<rparr>, None)"
  proof
    assume a: "dims \<noteq> [] \<and> (\<forall>d\<in>set dims. 0 < d \<and> d < 2 ^ 63)"
    then have "\<forall>d\<in>set dims. d < 2 ^ 63" and "positive dims"
      by (simp_all add: positive_def)
    then have "NewInterpreterSafe dims = (built dims, None)"
      using NewInterpreterSafe_built [of dims "built dims"] by simp
    then show "NewInterpreterSafe dims =
        (\<lparr>Dims = dims,
          Sizes = map (\<lambda>i. wrap (prod_list (take (Suc i) dims))) [0..<length dims]\<rparr>, None)"
      by (simp add: built_def wsizes_def stride_def)
  qed
next
  show "dims \<noteq> [] \<and> (\<forall>d\<in>set dims. 0 < d) \<and> prod_list dims < 2 ^ 63 \<longrightarrow>
      NewInterpreterSafe dims =
        (\<lparr>Dims = dims, Sizes = map (\<lambda>i. prod_list (take (Suc i) dims)) [0..<length dims]\<rparr>, None)"
  proof
    assume a: "dims \<noteq> [] \<and> (\<forall>d\<in>set dims. 0 < d) \<and> prod_list dims < 2 ^ 63"
    then have "total dims < 2 ^ 63" and "positive dims"
      by (simp_all add: positive_def total_prod)
    then have "NewInterpreterSafe dims = (interp_of dims, None)"
      using NewInterpreterSafe_iff [of dims "interp_of dims"] by simp
    then show "NewInterpreterSafe dims =
        (\<lparr>Dims = dims, Sizes = map (\<lambda>i. prod_list (take (Suc i) dims)) [0..<length dims]\<rparr>, None)"
      by (simp add: interp_of_def sizes_of_def stride_def)
  qed
next
  show "NewInterpreterSafe [1, 0, 2] = (zero_Interpreter, Some (DimsValueError [1, 0, 2] 1))"
    by (simp add: NewInterpreterSafe_def)
next
  show "NewInterpreterSafe [] = (zero_Interpreter, Some ErrZeroDims)"
    by (simp add: NewInterpreterSafe_def)
qed

theorem NewInterpreterSafe_result_witness:
  "NewInterpreterSafe [2, 3, 4] = (\<lparr>Dims = [2, 3, 4], Sizes = [2, 6, 24]\<rparr>, None) \<and>
   snd (NewInterpreterSafe [1, 0, 2]) = Some (DimsValueError [1, 0, 2] 1) \<and>
   snd (NewInterpreterSafe []) = Some ErrZeroDims"
  using NewInterpreterSafe_result [of "[2, 3, 4]"] NewInterpreterSafe_result [of "[1, 0, 2]"]
    NewInterpreterSafe_result [of "[]"]
  by (simp add: upt_rec numeral_nat wrap_def)

text \<open>
  C2, as the code has it. The dimensions \<open>[4, 2^62 - 1, 2^62 - 2]\<close> are accepted and give
  \<open>Sizes = [4, -4, 8]\<close>, so \<open>Size()\<close> is 8. The index 4 lies in \<open>[0, Size())\<close>, \<open>PointSafe(4)\<close>
  returns \<open>[0, 0, -1]\<close> without error, and \<open>IndexSafe\<close> of that point returns an error. The
  point \<open>[0, 1, 0]\<close> passes \<open>CheckPoint\<close> and \<open>IndexSafe\<close> gives it the index 4, of which
  \<open>PointSafe\<close> returns another point.
\<close>

theorem Index_Point_overflow_counterexample:
  "NewInterpreterSafe [4, 2 ^ 62 - 1, 2 ^ 62 - 2] =
     (\<lparr>Dims = [4, 2 ^ 62 - 1, 2 ^ 62 - 2], Sizes = [4, - 4, 8]\<rparr>, None) \<and>
   Size \<lparr>Dims = [4, 2 ^ 62 - 1, 2 ^ 62 - 2], Sizes = [4, - 4, 8]\<rparr> = Inr 8 \<and>
   PointSafe \<lparr>Dims = [4, 2 ^ 62 - 1, 2 ^ 62 - 2], Sizes = [4, - 4, 8]\<rparr> 4
     = Inr ([0, 0, - 1], None) \<and>
   IndexSafe \<lparr>Dims = [4, 2 ^ 62 - 1, 2 ^ 62 - 2], Sizes = [4, - 4, 8]\<rparr> [0, 0, - 1]
     = Inr (0, Some (PointOutOfBoundsError [0, 0, - 1] [4, 2 ^ 62 - 1, 2 ^ 62 - 2] 2)) \<and>
   CheckPoint \<lparr>Dims = [4, 2 ^ 62 - 1, 2 ^ 62 - 2], Sizes = [4, - 4, 8]\<rparr> [0, 1, 0] = Inr None \<and>
   IndexSafe \<lparr>Dims = [4, 2 ^ 62 - 1, 2 ^ 62 - 2], Sizes = [4, - 4, 8]\<rparr> [0, 1, 0]
     = Inr (4, None)"
  by code_simp

text \<open>
  C2, amended. For an Interpreter built from a valid dimension vector whose product is below
  \<open>2^63\<close>, \<open>Size()\<close> is the product of the dimensions and index-to-point conversion is a
  bijection on \<open>[0, Size())\<close>: for every \<open>i\<close> in that range \<open>PointSafe(i)\<close> returns a point
  without error and \<open>IndexSafe\<close> of that point returns \<open>i\<close> without error; for every point \<open>p\<close>
  that passes \<open>CheckPoint\<close>, \<open>IndexSafe(p)\<close> returns an index without error and \<open>PointSafe\<close> of
  that index returns \<open>p\<close> without error.
\<close>

theorem Index_Point_bijection:
  "NewInterpreterSafe dims = (itp, None) \<Longrightarrow> prod_list dims < 2 ^ 63 \<Longrightarrow>
   Size itp = Inr (prod_list dims) \<and>
   (\<forall>i. 0 \<le> i \<and> i < prod_list dims \<longrightarrow>
      (\<exists>p. PointSafe itp i = Inr (p, None) \<and> IndexSafe itp p = Inr (i, None))) \<and>
   (\<forall>p. CheckPoint itp p = Inr None \<longrightarrow>
      (\<exists>i. IndexSafe itp p = Inr (i, None) \<and> PointSafe itp i = Inr (p, None)))"
proof -
  assume v: "NewInterpreterSafe dims = (itp, None)" and "prod_list dims < 2 ^ 63"
  then have tf: "total dims < 2 ^ 63" by (simp add: total_prod)
  have pos: "positive dims" and itp: "itp = interp_of dims"
    using v NewInterpreterSafe_iff [OF tf] by simp_all
  have "Size itp = Inr (prod_list dims)"
    using pos by (simp add: itp Size_interp positive_def total_prod)
  moreover have "\<exists>p. PointSafe itp i = Inr (p, None) \<and> IndexSafe itp p = Inr (i, None)"
    if "0 \<le> i \<and> i < prod_list dims" for i
  proof -
    have i: "0 \<le> i" "i < total dims" using that by (simp_all add: total_prod)
    have "IndexSafe itp (decode dims i) = Inr (i, None)"
      using IndexSafe_interp [OF pos decode_in_shape [OF pos] tf, of i] encode_decode [OF pos i]
      by (simp add: itp)
    then show ?thesis using PointSafe_interp [OF pos i tf] by (simp add: itp)
  qed
  moreover have "\<exists>i. IndexSafe itp p = Inr (i, None) \<and> PointSafe itp i = Inr (p, None)"
    if "CheckPoint itp p = Inr None" for p
  proof -
    have shp: "in_shape dims p" using that pos CheckPoint_interp by (simp add: itp)
    have "PointSafe itp (encode dims p) = Inr (p, None)"
      using PointSafe_interp [OF pos _ _ tf, of "encode dims p"] encode_bounds [OF pos shp]
        decode_encode [OF pos shp] by (simp add: itp)
    then show ?thesis using IndexSafe_interp [OF pos shp tf] by (simp add: itp)
  qed
  ultimately show ?thesis by blast
qed

theorem Index_Point_bijection_witness:
  "Size \<lparr>Dims = [2, 3, 4], Sizes = [2, 6, 24]\<rparr> = Inr 24 \<and>
   (\<exists>p. PointSafe \<lparr>Dims = [2, 3, 4], Sizes = [2, 6, 24]\<rparr> 23 = Inr (p, None) \<and>
        IndexSafe \<lparr>Dims = [2, 3, 4], Sizes = [2, 6, 24]\<rparr> p = Inr (23, None)) \<and>
   CheckPoint \<lparr>Dims = [2, 3, 4], Sizes = [2, 6, 24]\<rparr> [0, 1, 2] = Inr None \<and>
   (\<exists>i. IndexSafe \<lparr>Dims = [2, 3, 4], Sizes = [2, 6, 24]\<rparr> [0, 1, 2] = Inr (i, None) \<and>
        PointSafe \<lparr>Dims = [2, 3, 4], Sizes = [2, 6, 24]\<rparr> i = Inr ([0, 1, 2], None))"
proof -
  have cp: "CheckPoint \<lparr>Dims = [2, 3, 4], Sizes = [2, 6, 24]\<rparr> [0, 1, 2] = Inr None"
    by (simp add: CheckPoint_def)
  have fits: "prod_list [2, 3, 4 :: int] < 2 ^ 63" by simp
  show ?thesis
    using Index_Point_bijection [OF interp_234 fits] cp by simp
qed

text \<open>
  C3, as the code has it. The sum is computed in machine integers. The dimensions
  \<open>[2^62, 4]\<close> are accepted, the point \<open>[0, 3]\<close> passes \<open>CheckPoint\<close>, the stated sum
  \<open>p[0] + p[1] * Sizes[0]\<close> is \<open>3 * 2^62\<close>, and \<open>IndexSafe\<close> returns \<open>-2^62\<close>.
\<close>

theorem IndexSafe_overflow_counterexample:
  "NewInterpreterSafe [2 ^ 62, 4] = (\<lparr>Dims = [2 ^ 62, 4], Sizes = [2 ^ 62, 0]\<rparr>, None) \<and>
   CheckPoint \<lparr>Dims = [2 ^ 62, 4], Sizes = [2 ^ 62, 0]\<rparr> [0, 3] = Inr None \<and>
   IndexSafe \<lparr>Dims = [2 ^ 62, 4], Sizes = [2 ^ 62, 0]\<rparr> [0, 3] = Inr (- (2 ^ 62), None) \<and>
   [0, 3] ! 0 + [0, 3] ! 1 * Sizes \<lparr>Dims = [2 ^ 62, 4], Sizes = [2 ^ 62, 0]\<rparr> ! 0
     = (3 * 2 ^ 62 :: int)"
  by code_simp

text \<open>
  C3, amended. For a valid Interpreter over \<open>int\<close> dimensions and a point \<open>p\<close> that passes
  \<open>CheckPoint\<close>, \<open>IndexSafe(p)\<close> returns \<open>p[0] + \<Sum> i = 1..N-1. p[i] * Sizes[i-1]\<close> as the
  machine computes it, that is, brought into the range of \<open>int\<close> by \<open>wrap\<close>; it returns the
  sum itself when the product of the dimensions is below \<open>2^63\<close>. Dimension 0 is least
  significant. For the shape \<open>[2,3,4]\<close>, \<open>IndexSafe([0,1,2])\<close> returns 14 and \<open>PointSafe(23)\<close>
  returns \<open>[1,2,3]\<close>.
\<close>

theorem IndexSafe_mixed_radix:
  "(NewInterpreterSafe dims = (itp, None) \<and> (\<forall>d\<in>set dims. d < 2 ^ 63) \<and>
    CheckPoint itp p = Inr None \<longrightarrow>
      IndexSafe itp p =
        Inr (wrap (p ! 0 + (\<Sum>i = 1..<length dims. p ! i * Sizes itp ! (i - 1))), None)) \<and>
   (NewInterpreterSafe dims = (itp, None) \<and> prod_list dims < 2 ^ 63 \<and>
    CheckPoint itp p = Inr None \<longrightarrow>
      IndexSafe itp p =
        Inr (p ! 0 + (\<Sum>i = 1..<length dims. p ! i * Sizes itp ! (i - 1)), None)) \<and>
   NewInterpreterSafe [2, 3, 4] = (\<lparr>Dims = [2, 3, 4], Sizes = [2, 6, 24]\<rparr>, None) \<and>
   IndexSafe \<lparr>Dims = [2, 3, 4], Sizes = [2, 6, 24]\<rparr> [0, 1, 2] = Inr (14, None) \<and>
   PointSafe \<lparr>Dims = [2, 3, 4], Sizes = [2, 6, 24]\<rparr> 23 = Inr ([1, 2, 3], None)"
proof (intro conjI impI)
  assume a: "NewInterpreterSafe dims = (itp, None) \<and> (\<forall>d\<in>set dims. d < 2 ^ 63) \<and>
    CheckPoint itp p = Inr None"
  then have r: "\<forall>d\<in>set dims. d < 2 ^ 63" by simp
  have pos: "positive dims" and itp: "itp = built dims"
    using a NewInterpreterSafe_built [OF r] by simp_all
  have shp: "in_shape dims p" using a pos CheckPoint_built by (simp add: itp)
  show "IndexSafe itp p =
        Inr (wrap (p ! 0 + (\<Sum>i = 1..<length dims. p ! i * Sizes itp ! (i - 1))), None)"
    using IndexSafe_built [OF pos r shp] by (simp add: itp)
next
  assume a: "NewInterpreterSafe dims = (itp, None) \<and> prod_list dims < 2 ^ 63 \<and>
    CheckPoint itp p = Inr None"
  then have tf: "total dims < 2 ^ 63" by (simp add: total_prod)
  have pos: "positive dims" and itp: "itp = interp_of dims"
    using a NewInterpreterSafe_iff [OF tf] by simp_all
  have shp: "in_shape dims p" using a pos CheckPoint_interp by (simp add: itp)
  have ne: "dims \<noteq> []" using pos by (simp add: positive_def)
  show "IndexSafe itp p =
        Inr (p ! 0 + (\<Sum>i = 1..<length dims. p ! i * Sizes itp ! (i - 1)), None)"
    using IndexSafe_interp [OF pos shp tf] encode_sizes [OF ne, of p] by (simp add: itp)
next
  show "NewInterpreterSafe [2, 3, 4] = (\<lparr>Dims = [2, 3, 4], Sizes = [2, 6, 24]\<rparr>, None)"
    by (rule interp_234)
next
  show "IndexSafe \<lparr>Dims = [2, 3, 4], Sizes = [2, 6, 24]\<rparr> [0, 1, 2] = Inr (14, None)"
    by (simp add: IndexSafe_def CheckPoint_def IndexFast_def IndexFast_loop.simps wrap_def)
next
  show "PointSafe \<lparr>Dims = [2, 3, 4], Sizes = [2, 6, 24]\<rparr> 23 = Inr ([1, 2, 3], None)"
    by (simp add: PointSafe_def CheckIndex_def Size_def signed_divide_int_def
        signed_modulo_int_def numeral_2_eq_2 wrap_def)
qed

theorem IndexSafe_mixed_radix_witness:
  "IndexSafe \<lparr>Dims = [2, 3, 4], Sizes = [2, 6, 24]\<rparr> [1, 1, 3] = Inr (1 + (1 * 2 + 3 * 6), None)"
proof -
  have cp: "CheckPoint \<lparr>Dims = [2, 3, 4], Sizes = [2, 6, 24]\<rparr> [1, 1, 3] = Inr None"
    by (simp add: CheckPoint_def)
  have "(\<Sum>i = 1..<3. [1, 1, 3] ! i * [2, 6, 24] ! (i - 1)) = (1 * 2 + 3 * 6 :: int)"
    by (simp add: numeral_3_eq_3 sum.atLeast_Suc_lessThan)
  then show ?thesis
    using IndexSafe_mixed_radix [of "[2, 3, 4]" "\<lparr>Dims = [2, 3, 4], Sizes = [2, 6, 24]\<rparr>" "[1, 1, 3]"]
      interp_234 cp by (simp add: wrap_def)
qed

text \<open>
  C4, as the code has it. With the dimensions \<open>[2^62, 4]\<close> the point \<open>[2^62 - 1, 1]\<close> passes
  \<open>CheckPoint\<close> and is not maximal; its index is \<open>2^63 - 1\<close>, the greatest \<open>int\<close>.
  \<open>IncrementSafe\<close> returns true and leaves \<open>[0, 2]\<close>, whose index is \<open>-2^63\<close>, not one
  greater. With the dimensions \<open>[4, 2^62 - 1, 2^62 - 2]\<close>, \<open>Size()\<close> is 8, and the eighth
  increment from the all-zero point returns true and leaves \<open>[0, 2, 0]\<close>.
\<close>

theorem Increment_overflow_counterexample:
  "NewInterpreterSafe [2 ^ 62, 4] = (\<lparr>Dims = [2 ^ 62, 4], Sizes = [2 ^ 62, 0]\<rparr>, None) \<and>
   CheckPoint \<lparr>Dims = [2 ^ 62, 4], Sizes = [2 ^ 62, 0]\<rparr> [2 ^ 62 - 1, 1] = Inr None \<and>
   IndexSafe \<lparr>Dims = [2 ^ 62, 4], Sizes = [2 ^ 62, 0]\<rparr> [2 ^ 62 - 1, 1]
     = Inr (2 ^ 63 - 1, None) \<and>
   IncrementSafe \<lparr>Dims = [2 ^ 62, 4], Sizes = [2 ^ 62, 0]\<rparr> [2 ^ 62 - 1, 1]
     = Inr ((True, None), [0, 2]) \<and>
   IndexSafe \<lparr>Dims = [2 ^ 62, 4], Sizes = [2 ^ 62, 0]\<rparr> [0, 2] = Inr (- (2 ^ 63), None) \<and>
   NewInterpreterSafe [4, 2 ^ 62 - 1, 2 ^ 62 - 2] =
     (\<lparr>Dims = [4, 2 ^ 62 - 1, 2 ^ 62 - 2], Sizes = [4, - 4, 8]\<rparr>, None) \<and>
   Size \<lparr>Dims = [4, 2 ^ 62 - 1, 2 ^ 62 - 2], Sizes = [4, - 4, 8]\<rparr> = Inr 8 \<and>
   increment_run \<lparr>Dims = [4, 2 ^ 62 - 1, 2 ^ 62 - 2], Sizes = [4, - 4, 8]\<rparr> 8 [0, 0, 0]
     = Inr [((True, None), [1, 0, 0]), ((True, None), [2, 0, 0]), ((True, None), [3, 0, 0]),
            ((True, None), [0, 1, 0]), ((True, None), [1, 1, 0]), ((True, None), [2, 1, 0]),
            ((True, None), [3, 1, 0]), ((True, None), [0, 2, 0])]"
  by code_simp

text \<open>
  C4, amended. For a valid Interpreter over \<open>int\<close> dimensions and a point \<open>p\<close> that passes
  \<open>CheckPoint\<close>: if \<open>p\<close> is not the maximal point, \<open>IncrementSafe(p)\<close> returns true and leaves
  in \<open>p\<close> a valid point, whose index is the index of \<open>p\<close> plus one as the machine computes it
  (brought into the range of \<open>int\<close> by \<open>wrap\<close>), and so is one greater when the product of
  the dimensions is below \<open>2^63\<close>; if \<open>p\<close> is the maximal point (\<open>p[i] = Dims[i] - 1\<close> for
  every \<open>i\<close>), it returns false and leaves \<open>p\<close> all-zero. Consequently, when the product of
  the dimensions is below \<open>2^63\<close>, \<open>Size()\<close> successive increments from the all-zero point
  (index 0) pass through the indices \<open>1, 2, \<dots>, Size() - 1\<close> in this order, each increment
  but the last returning true, and the last returns false and restores the all-zero point.
\<close>

theorem Increment_successor:
  "NewInterpreterSafe dims = (itp, None) \<Longrightarrow> \<forall>d\<in>set dims. d < 2 ^ 63 \<Longrightarrow>
   (\<forall>p. CheckPoint itp p = Inr None \<longrightarrow>
      ((\<exists>i<length dims. p ! i \<noteq> dims ! i - 1) \<longrightarrow>
         (\<exists>idx p'. IndexSafe itp p = Inr (idx, None) \<and>
            IncrementSafe itp p = Inr ((True, None), p') \<and>
            CheckPoint itp p' = Inr None \<and>
            IndexSafe itp p' = Inr (wrap (idx + 1), None) \<and>
            (prod_list dims < 2 ^ 63 \<longrightarrow> IndexSafe itp p' = Inr (idx + 1, None)))) \<and>
      ((\<forall>i<length dims. p ! i = dims ! i - 1) \<longrightarrow>
         IncrementSafe itp p = Inr ((False, None), replicate (length dims) 0))) \<and>
   (prod_list dims < 2 ^ 63 \<longrightarrow>
      (\<exists>s rs. Size itp = Inr s \<and> 0 < s \<and>
         IndexSafe itp (replicate (length dims) 0) = Inr (0, None) \<and>
         increment_run itp (nat s) (replicate (length dims) 0) = Inr rs \<and>
         length rs = nat s \<and>
         (\<forall>k. Suc k < nat s \<longrightarrow>
            fst (rs ! k) = (True, None) \<and> IndexSafe itp (snd (rs ! k)) = Inr (int k + 1, None)) \<and>
         rs ! (nat s - 1) = ((False, None), replicate (length dims) 0)))"
proof -
  assume v: "NewInterpreterSafe dims = (itp, None)" and r: "\<forall>d\<in>set dims. d < 2 ^ 63"
  have pos: "positive dims" and itp: "itp = built dims"
    using v NewInterpreterSafe_built [OF r] by simp_all
  let ?n = "length dims" and ?t = "total dims"
  have tpos: "0 < ?t" by (rule total_pos [OF pos])
  have first: "((\<exists>i<?n. p ! i \<noteq> dims ! i - 1) \<longrightarrow>
         (\<exists>idx p'. IndexSafe itp p = Inr (idx, None) \<and>
            IncrementSafe itp p = Inr ((True, None), p') \<and>
            CheckPoint itp p' = Inr None \<and>
            IndexSafe itp p' = Inr (wrap (idx + 1), None) \<and>
            (prod_list dims < 2 ^ 63 \<longrightarrow> IndexSafe itp p' = Inr (idx + 1, None)))) \<and>
      ((\<forall>i<?n. p ! i = dims ! i - 1) \<longrightarrow>
         IncrementSafe itp p = Inr ((False, None), replicate ?n 0))"
    if cp: "CheckPoint itp p = Inr None" for p
  proof -
    have shp: "in_shape dims p" using cp pos CheckPoint_built by (simp add: itp)
    have b: "0 \<le> encode dims p" "encode dims p < ?t"
      using encode_bounds [OF pos shp] by simp_all
    have inc: "IncrementSafe itp p =
        Inr ((encode dims p + 1 < ?t, None), decode dims ((encode dims p + 1) mod ?t))"
      using IncrementSafe_shape [OF pos r _ _ shp, of itp] by (simp add: itp)
    show ?thesis
    proof (intro conjI impI)
      assume "\<exists>i<?n. p ! i \<noteq> dims ! i - 1"
      then have "encode dims p \<noteq> ?t - 1" using maximal_iff [OF pos shp] by blast
      then have lt: "encode dims p + 1 < ?t" using b by simp
      let ?p' = "decode dims (encode dims p + 1)"
      let ?idx = "wrap (encode dims p)"
      have shp': "in_shape dims ?p'" by (rule decode_in_shape [OF pos])
      have e': "encode dims ?p' = encode dims p + 1"
        using encode_decode [OF pos, of "encode dims p + 1"] lt b by simp
      have i0: "IndexSafe itp p = Inr (?idx, None)"
        using IndexSafe_built_encode [OF pos r shp] by (simp add: itp)
      have i1: "IncrementSafe itp p = Inr ((True, None), ?p')"
        using inc lt b by simp
      have i2: "CheckPoint itp ?p' = Inr None"
        using shp' pos CheckPoint_built by (simp add: itp)
      have "IndexSafe itp ?p' = Inr (wrap (encode dims p + 1), None)"
        using IndexSafe_built_encode [OF pos r shp'] by (simp add: itp e')
      then have i3: "IndexSafe itp ?p' = Inr (wrap (?idx + 1), None)"
        by (simp only: wrap_add_left)
      have i4: "IndexSafe itp ?p' = Inr (?idx + 1, None)" if "prod_list dims < 2 ^ 63"
      proof -
        have tf: "?t < 2 ^ 63" using that by (simp add: total_prod)
        have "wrap (encode dims p) = encode dims p"
          using b tf by (intro wrap_id) simp_all
        moreover have "wrap (encode dims p + 1) = encode dims p + 1"
          using b lt tf by (intro wrap_id) simp_all
        ultimately show ?thesis using i3 by simp
      qed
      show "\<exists>idx p'. IndexSafe itp p = Inr (idx, None) \<and>
            IncrementSafe itp p = Inr ((True, None), p') \<and>
            CheckPoint itp p' = Inr None \<and>
            IndexSafe itp p' = Inr (wrap (idx + 1), None) \<and>
            (prod_list dims < 2 ^ 63 \<longrightarrow> IndexSafe itp p' = Inr (idx + 1, None))"
        using i0 i1 i2 i3 i4 by (intro exI [of _ ?idx] exI [of _ ?p']) blast
    next
      assume "\<forall>i<?n. p ! i = dims ! i - 1"
      then have "encode dims p = ?t - 1" using maximal_iff [OF pos shp] by blast
      then show "IncrementSafe itp p = Inr ((False, None), replicate ?n 0)"
        using inc by (simp add: decode_zero)
    qed
  qed
  have second: "\<exists>s rs. Size itp = Inr s \<and> 0 < s \<and>
      IndexSafe itp (replicate ?n 0) = Inr (0, None) \<and>
      increment_run itp (nat s) (replicate ?n 0) = Inr rs \<and>
      length rs = nat s \<and>
      (\<forall>k. Suc k < nat s \<longrightarrow>
         fst (rs ! k) = (True, None) \<and> IndexSafe itp (snd (rs ! k)) = Inr (int k + 1, None)) \<and>
      rs ! (nat s - 1) = ((False, None), replicate ?n 0)"
    if fits: "prod_list dims < 2 ^ 63"
  proof -
    have tf: "?t < 2 ^ 63" using fits by (simp add: total_prod)
    have itp': "itp = interp_of dims" using built_fit [OF pos tf] by (simp add: itp)
    let ?rs = "map (\<lambda>k. ((0 + int k + 1 < ?t, None), decode dims ((0 + int k + 1) mod ?t))) [0..<nat ?t]"
    have run: "increment_run itp (nat ?t) (replicate ?n 0) = Inr ?rs"
      using increment_run_decode [OF pos tf, of 0 "nat ?t"] tpos by (simp add: itp' decode_zero)
    have zshape: "in_shape dims (replicate ?n 0)"
      using pos by (auto simp: in_shape_def positive_def)
    have z: "IndexSafe itp (replicate ?n 0) = Inr (0, None)"
      using IndexSafe_interp [OF pos zshape tf] by (simp add: itp' encode_zero)
    have mid: "fst (?rs ! k) = (True, None) \<and> IndexSafe itp (snd (?rs ! k)) = Inr (int k + 1, None)"
      if "Suc k < nat ?t" for k
    proof -
      have k: "int k + 1 < ?t" "k < nat ?t" using that by simp_all
      have "IndexSafe itp (decode dims (int k + 1)) = Inr (int k + 1, None)"
        using IndexSafe_interp [OF pos decode_in_shape [OF pos] tf, of "int k + 1"]
          encode_decode [OF pos, of "int k + 1"] k by (simp add: itp')
      then show ?thesis using k by simp
    qed
    have lst: "?rs ! (nat ?t - 1) = ((False, None), replicate ?n 0)"
      using tpos by (simp add: decode_zero)
    have "Size itp = Inr ?t" using pos by (simp add: itp' Size_interp positive_def)
    then show ?thesis
      using tpos z run mid lst
      by (intro exI [of _ ?t] exI [of _ ?rs]) simp
  qed
  show ?thesis using first second by blast
qed

theorem Increment_successor_witness:
  "IncrementSafe \<lparr>Dims = [2, 3, 4], Sizes = [2, 6, 24]\<rparr> [1, 2, 3] = Inr ((False, None), [0, 0, 0]) \<and>
   (\<exists>idx p'. IndexSafe \<lparr>Dims = [2, 3, 4], Sizes = [2, 6, 24]\<rparr> [1, 0, 0] = Inr (idx, None) \<and>
      IncrementSafe \<lparr>Dims = [2, 3, 4], Sizes = [2, 6, 24]\<rparr> [1, 0, 0] = Inr ((True, None), p') \<and>
      IndexSafe \<lparr>Dims = [2, 3, 4], Sizes = [2, 6, 24]\<rparr> p' = Inr (idx + 1, None))"
proof -
  let ?itp = "\<lparr>Dims = [2, 3, 4], Sizes = [2, 6, 24]\<rparr>"
  have cp: "CheckPoint ?itp [1, 2, 3] = Inr None" "CheckPoint ?itp [1, 0, 0] = Inr None"
    by (simp_all add: CheckPoint_def)
  have mx: "\<forall>i<length [2, 3, 4 :: int]. [1, 2, 3] ! i = [2, 3, 4 :: int] ! i - 1"
    by (simp add: All_less_Suc2)
  have nm: "\<exists>i<length [2, 3, 4 :: int]. [1, 0, 0] ! i \<noteq> [2, 3, 4 :: int] ! i - 1"
    by (intro exI [of _ 1]) simp
  have r: "\<forall>d\<in>set [2, 3, 4 :: int]. d < 2 ^ 63" by simp
  have fits: "prod_list [2, 3, 4 :: int] < 2 ^ 63" by simp
  note succ = Increment_successor [OF interp_234 r, THEN conjunct1, rule_format]
  have "IncrementSafe ?itp [1, 2, 3] = Inr ((False, None), replicate (length [2, 3, 4 :: int]) 0)"
    using succ [OF cp(1), THEN conjunct2] mx by blast
  then have a: "IncrementSafe ?itp [1, 2, 3] = Inr ((False, None), [0, 0, 0])"
    by (simp add: numeral_3_eq_3)
  have "\<exists>idx p'. IndexSafe ?itp [1, 0, 0] = Inr (idx, None) \<and>
      IncrementSafe ?itp [1, 0, 0] = Inr ((True, None), p') \<and>
      CheckPoint ?itp p' = Inr None \<and>
      IndexSafe ?itp p' = Inr (wrap (idx + 1), None) \<and>
      (prod_list [2, 3, 4 :: int] < 2 ^ 63 \<longrightarrow> IndexSafe ?itp p' = Inr (idx + 1, None))"
    using succ [OF cp(2), THEN conjunct1] nm by blast
  then show ?thesis using a fits by blast
qed

text \<open>
  C5, as the code has it. \<open>IncreaseBySafe\<close> returns at once for a change of \<open>0\<close>, and hands a
  change of \<open>1\<close> or \<open>-1\<close> to \<open>IncrementSafe\<close> or \<open>DecrementSafe\<close>, before it compares the change
  with the size. For a shape of size 1 a change of \<open>1\<close> or \<open>-1\<close> has magnitude \<open>\<ge> Size()\<close>
  and yet returns \<open>(false, nil)\<close>, not \<open>ErrChangeTooBig\<close>. The dimensions \<open>[2^32, 2^32]\<close> are
  accepted and give \<open>Size() = 0\<close>; there a change of \<open>0\<close> has magnitude \<open>\<ge> Size()\<close> and returns
  \<open>(true, nil)\<close>.
\<close>

theorem IncreaseBySafe_dispatch_counterexample:
  "NewInterpreterSafe [1] = (\<lparr>Dims = [1], Sizes = [1]\<rparr>, None) \<and>
   CheckPoint \<lparr>Dims = [1], Sizes = [1]\<rparr> [0] = Inr None \<and>
   Size \<lparr>Dims = [1], Sizes = [1]\<rparr> = Inr 1 \<and>
   IncreaseBySafe \<lparr>Dims = [1], Sizes = [1]\<rparr> [0] 1 = Inr ((False, None), [0]) \<and>
   IncreaseBySafe \<lparr>Dims = [1], Sizes = [1]\<rparr> [0] (- 1) = Inr ((False, None), [0]) \<and>
   NewInterpreterSafe [2 ^ 32, 2 ^ 32] =
     (\<lparr>Dims = [2 ^ 32, 2 ^ 32], Sizes = [2 ^ 32, 0]\<rparr>, None) \<and>
   CheckPoint \<lparr>Dims = [2 ^ 32, 2 ^ 32], Sizes = [2 ^ 32, 0]\<rparr> [0, 0] = Inr None \<and>
   Size \<lparr>Dims = [2 ^ 32, 2 ^ 32], Sizes = [2 ^ 32, 0]\<rparr> = Inr 0 \<and>
   IncreaseBySafe \<lparr>Dims = [2 ^ 32, 2 ^ 32], Sizes = [2 ^ 32, 0]\<rparr> [0, 0] 0
     = Inr ((True, None), [0, 0])"
  by code_simp

text \<open>
  C5, amended. For a valid Interpreter over \<open>int\<close> dimensions, a point \<open>p\<close> that passes
  \<open>CheckPoint\<close> and a change other than \<open>0\<close>, \<open>1\<close> and \<open>-1\<close> with \<open>|change| \<ge> Size()\<close>,
  \<open>IncreaseBySafe(p, change)\<close> returns \<open>(false, ErrChangeTooBig)\<close> and leaves \<open>p\<close> unchanged.
  This holds also when the product of the dimensions overflows.
\<close>

theorem IncreaseBySafe_change_too_big:
  "NewInterpreterSafe dims = (itp, None) \<Longrightarrow> \<forall>d\<in>set dims. d < 2 ^ 63 \<Longrightarrow>
   CheckPoint itp p = Inr None \<Longrightarrow> Size itp = Inr s \<Longrightarrow> \<bar>change\<bar> \<ge> s \<Longrightarrow>
   change \<noteq> 0 \<Longrightarrow> change \<noteq> 1 \<Longrightarrow> change \<noteq> - 1 \<Longrightarrow>
   IncreaseBySafe itp p change = Inr ((False, Some ErrChangeTooBig), p)"
proof -
  assume v: "NewInterpreterSafe dims = (itp, None)" and r: "\<forall>d\<in>set dims. d < 2 ^ 63"
    and cp: "CheckPoint itp p = Inr None" and sz: "Size itp = Inr s"
    and big: "\<bar>change\<bar> \<ge> s" and c: "change \<noteq> 0" "change \<noteq> 1" "change \<noteq> - 1"
  have pos: "positive dims" and itp: "itp = built dims"
    using v NewInterpreterSafe_built [OF r] by simp_all
  have ne: "dims \<noteq> []" using pos by (simp add: positive_def)
  have shp: "in_shape dims p" using cp pos CheckPoint_built by (simp add: itp)
  have idx: "\<exists>idx. IndexSafe itp p = Inr (idx, None)"
    using IndexSafe_built [OF pos r shp] by (simp add: itp)
  have "s = wrap (total dims)" using sz Size_built [OF ne] by (simp add: itp)
  then have "- (2 ^ 63) \<le> s" "s < 2 ^ 63" using wrap_bounds [of "total dims"] by simp_all
  then have "change \<ge> s \<or> change \<le> wrap (- s)" using big by (rule too_big_cases)
  then show ?thesis
    using idx sz c by (auto simp: IncreaseBySafe_def)
qed

theorem IncreaseBySafe_change_too_big_witness:
  "IncreaseBySafe \<lparr>Dims = [2, 3, 4], Sizes = [2, 6, 24]\<rparr> [1, 2, 3] (- 24)
     = Inr ((False, Some ErrChangeTooBig), [1, 2, 3])"
proof -
  have cp: "CheckPoint \<lparr>Dims = [2, 3, 4], Sizes = [2, 6, 24]\<rparr> [1, 2, 3] = Inr None"
    by (simp add: CheckPoint_def)
  have sz: "Size \<lparr>Dims = [2, 3, 4], Sizes = [2, 6, 24]\<rparr> = Inr 24"
    by (simp add: Size_def)
  have r: "\<forall>d\<in>set [2, 3, 4 :: int]. d < 2 ^ 63" by simp
  show ?thesis
    by (rule IncreaseBySafe_change_too_big [OF interp_234 r cp sz]) simp_all
qed

text \<open>
  C9. For every Interpreter and every point whatsoever, \<open>IncreaseBySafe(p, 0)\<close> returns
  \<open>(true, nil)\<close> and leaves the point as it was: the case \<open>change == 0\<close> validates nothing.
\<close>

theorem IncreaseBySafe_zero_noop:
  "IncreaseBySafe itp p 0 = Inr ((True, None), p)"
  by (simp add: IncreaseBySafe_def)

text \<open>
  C10. For every Interpreter and every point \<open>p\<close> for which \<open>CheckPoint\<close> returns an error,
  \<open>IncrementSafe\<close> and \<open>DecrementSafe\<close> return \<open>(false, err)\<close> with that same error and leave
  \<open>p\<close> as it was.
\<close>

theorem Increment_Decrement_atomic_on_failure:
  "CheckPoint itp p = Inr (Some e) \<Longrightarrow>
   IncrementSafe itp p = Inr ((False, Some e), p) \<and>
   DecrementSafe itp p = Inr ((False, Some e), p)"
  by (simp add: IncrementSafe_def DecrementSafe_def)

theorem Increment_Decrement_atomic_on_failure_witness:
  "CheckPoint \<lparr>Dims = [2, 3, 4], Sizes = [2, 6, 24]\<rparr> [0, 0, 4]
     = Inr (Some (PointOutOfBoundsError [0, 0, 4] [2, 3, 4] 2)) \<and>
   IncrementSafe \<lparr>Dims = [2, 3, 4], Sizes = [2, 6, 24]\<rparr> [0, 0, 4]
     = Inr ((False, Some (PointOutOfBoundsError [0, 0, 4] [2, 3, 4] 2)), [0, 0, 4]) \<and>
   DecrementSafe \<lparr>Dims = [2, 3, 4], Sizes = [2, 6, 24]\<rparr> [0, 0, 4]
     = Inr ((False, Some (PointOutOfBoundsError [0, 0, 4] [2, 3, 4] 2)), [0, 0, 4])"
proof -
  have h: "CheckPoint \<lparr>Dims = [2, 3, 4], Sizes = [2, 6, 24]\<rparr> [0, 0, 4]
     = Inr (Some (PointOutOfBoundsError [0, 0, 4] [2, 3, 4] 2))"
    by (simp add: CheckPoint_def)
  show ?thesis
    using h Increment_Decrement_atomic_on_failure [OF h] by simp
qed

section \<open>A run that overflows the shared index\<close>

text \<open>
  The single dimension \<open>2^63 - 1\<close> with one worker and batches of \<open>2^62\<close> indices: the
  size is below \<open>2^63\<close>, the end of the second batch is not. The run is too long to be
  evaluated step by step; \<open>visit_run\<close> is the run of a worker through the inside of a
  batch on which the visitor does not fail.
\<close>

lemma run_schedule_append:
  "run_schedule useFast itp fn opts (xs @ ys) st =
     (case run_schedule useFast itp fn opts xs st of
        Inl pn \<Rightarrow> Inl pn
      | Inr st' \<Rightarrow> run_schedule useFast itp fn opts ys st')"
  by (induction xs arbitrary: st) (auto split: sum.splits)

lemma visit_run:
  assumes "positive dims" "total dims < 2 ^ 63" "E \<le> total dims"
    "\<forall>p i. 0 \<le> i \<and> i < E \<longrightarrow> f p i = None"
  shows "0 \<le> a \<Longrightarrow> a + int m < E \<Longrightarrow>
    run_schedule False (interp_of dims) (Some f) opts (replicate m 0)
      \<lparr>sharedIndex = x, sharedPoint = sp, sharedErr = se,
       workers = [\<lparr>wpc = InBatch, localErr = None, localIndex = a,
                   localPoint = decode dims a, localEnd = E\<rparr>],
       calls = cs\<rparr>
    = Inr \<lparr>sharedIndex = x, sharedPoint = sp, sharedErr = se,
           workers = [\<lparr>wpc = InBatch, localErr = None, localIndex = a + int m,
                       localPoint = decode dims (a + int m), localEnd = E\<rparr>],
           calls = cs @ map (\<lambda>k. (decode dims (a + int k), a + int k)) [0..<m]\<rparr>"
proof (induction m arbitrary: a cs)
  case 0
  then show ?case by simp
next
  case (Suc m)
  let ?w = "\<lparr>wpc = InBatch, localErr = None, localIndex = a,
                   localPoint = decode dims a, localEnd = E\<rparr>"
  let ?st = "\<lparr>sharedIndex = x, sharedPoint = sp, sharedErr = se, workers = [?w], calls = cs\<rparr>"
  let ?st1 = "\<lparr>sharedIndex = x, sharedPoint = sp, sharedErr = se,
       workers = [\<lparr>wpc = InBatch, localErr = None, localIndex = a + 1,
                   localPoint = decode dims (a + 1), localEnd = E\<rparr>],
       calls = cs @ [(decode dims a, a)]\<rparr>"
  have fa: "f (decode dims a) a = None" using assms(4) Suc.prems by simp
  have "batch_step False (interp_of dims) (Some f) 0 ?st = Inr ?st1"
    using batch_step_visit [OF assms(1), of ?st 0 f] Suc.prems assms(2,3) fa
    by (simp add: set_worker_def)
  then have s: "step False (interp_of dims) (Some f) opts 0 ?st = Inr ?st1"
    by (simp add: step_def)
  have ih: "run_schedule False (interp_of dims) (Some f) opts (replicate m 0) ?st1
    = Inr \<lparr>sharedIndex = x, sharedPoint = sp, sharedErr = se,
           workers = [\<lparr>wpc = InBatch, localErr = None, localIndex = a + 1 + int m,
                       localPoint = decode dims (a + 1 + int m), localEnd = E\<rparr>],
           calls = (cs @ [(decode dims a, a)]) @
             map (\<lambda>k. (decode dims (a + 1 + int k), a + 1 + int k)) [0..<m]\<rparr>"
    using Suc.prems by (intro Suc.IH) simp_all
  have "map (\<lambda>k. (decode dims (a + int k), a + int k)) [0..<Suc m]
      = (decode dims a, a) # map (\<lambda>k. (decode dims (a + 1 + int k), a + 1 + int k)) [0..<m]"
    by (simp add: upt_0_Suc_Cons comp_def algebra_simps del: upt_Suc)
  then show ?case using s ih by (simp add: algebra_simps del: upt_Suc)
qed

lemma decode_single: "0 \<le> x \<Longrightarrow> x < d \<Longrightarrow> decode [d] x = [x]"
  by (simp add: decode_def stride_def)

lemma overflow_run_steps:
  fixes n :: nat
  assumes "int (Suc n) = 2 ^ 62" "\<forall>p i. 0 \<le> i \<and> i < 2 ^ 62 \<longrightarrow> f p i = None"
  shows "MapApplySafe \<lparr>Dims = [2 ^ 63 - 1], Sizes = [2 ^ 63 - 1]\<rparr> (Some f)
      (Some \<lparr>OpsPerThread = 2 ^ 62, NumThreads = 1\<rparr>)
      (0 # replicate n 0 @ [0, 0])
    = Inr (Some (Some ErrIndexZero, map (\<lambda>k. ([int k], int k)) [0..<Suc n]))"
proof -
  let ?M = "2 ^ 63 - 1 :: int"
  let ?I = "\<lparr>Dims = [?M], Sizes = [?M]\<rparr>"
  let ?o = "\<lparr>OpsPerThread = 2 ^ 62, NumThreads = 1\<rparr>"
  let ?cs = "map (\<lambda>k. (decode [?M] (0 + int k), 0 + int k)) [0..<n]"
  let ?st1 = "\<lparr>sharedIndex = 2 ^ 62, sharedPoint = [2 ^ 62], sharedErr = None,
       workers = [\<lparr>wpc = InBatch, localErr = None, localIndex = 0,
                   localPoint = decode [?M] 0, localEnd = 2 ^ 62\<rparr>],
       calls = []\<rparr>"
  let ?st2 = "\<lparr>sharedIndex = 2 ^ 62, sharedPoint = [2 ^ 62], sharedErr = None,
       workers = [\<lparr>wpc = InBatch, localErr = None, localIndex = 0 + int n,
                   localPoint = decode [?M] (0 + int n), localEnd = 2 ^ 62\<rparr>],
       calls = [] @ ?cs\<rparr>"
  let ?st3 = "\<lparr>sharedIndex = 2 ^ 62, sharedPoint = [2 ^ 62], sharedErr = None,
       workers = [\<lparr>wpc = AtLock, localErr = None, localIndex = 2 ^ 62,
                   localPoint = [int n], localEnd = 2 ^ 62\<rparr>],
       calls = ?cs @ [([int n], int n)]\<rparr>"
  let ?st4 = "\<lparr>sharedIndex = - (2 ^ 63), sharedPoint = [], sharedErr = Some ErrIndexZero,
       workers = [\<lparr>wpc = Returned, localErr = None, localIndex = 2 ^ 62,
                   localPoint = [2 ^ 62], localEnd = - (2 ^ 63)\<rparr>],
       calls = ?cs @ [([int n], int n)]\<rparr>"
  have n: "int n = 2 ^ 62 - 1" using assms(1) by simp
  have pos: "positive [?M]" by (simp add: positive_def)
  have I: "interp_of [?M] = ?I" by (simp add: interp_of_def sizes_of_def stride_def)
  have s1: "step False ?I (Some f) ?o 0 (initial ?I ?o) = Inr ?st1"
    by (simp add: step_def initial_def lock_step_def Size_def makePoint_def PointSafe_def
        CheckIndex_def enter_batch_def set_worker_def wrap_def decode_single Let_def)
  have s2: "run_schedule False ?I (Some f) ?o (replicate n 0) ?st1 = Inr ?st2"
  proof -
    have tf: "total [?M] < 2 ^ 63" and le: "2 ^ 62 \<le> total [?M]"
      by (simp_all add: total_def stride_def)
    have z: "(0 :: int) \<le> 0" and lt: "0 + int n < 2 ^ 62" using n by simp_all
    have "run_schedule False (interp_of [?M]) (Some f) ?o (replicate n 0) ?st1 = Inr ?st2"
      by (rule visit_run [OF pos tf le assms(2) z lt])
    then show ?thesis by (simp only: I)
  qed
  have fn: "f [int n] (int n) = None" using assms(2) n by simp
  have s3: "step False ?I (Some f) ?o 0 ?st2 = Inr ?st3"
    using fn n by (simp add: step_def batch_step_def set_worker_def wrap_def decode_single Let_def)
  have s4: "step False ?I (Some f) ?o 0 ?st3 = Inr ?st4"
    by (simp add: step_def lock_step_def Size_def makePoint_def PointSafe_def
        CheckIndex_def set_worker_def wrap_def Let_def)
  have run: "run_schedule False ?I (Some f) ?o (0 # replicate n 0 @ [0, 0]) (initial ?I ?o)
      = Inr ?st4"
    using s1 s2 s3 s4 by (simp add: run_schedule_append)
  have "decode [?M] (int k) = [int k]" if "k < n" for k
    using that n by (intro decode_single) simp_all
  then have cs: "?cs @ [([int n], int n)] = map (\<lambda>k. ([int k], int k)) [0..<Suc n]"
    by simp
  show ?thesis
    using run cs
    by (simp add: MapApplySafe_def generalMapApply_def fill_options_def all_returned_def
        del: upt_Suc)
qed

lemma overflow_run:
  assumes "\<forall>p i. 0 \<le> i \<and> i < 2 ^ 62 \<longrightarrow> f p i = None"
  shows "MapApplySafe \<lparr>Dims = [2 ^ 63 - 1], Sizes = [2 ^ 63 - 1]\<rparr> (Some f)
      (Some \<lparr>OpsPerThread = 2 ^ 62, NumThreads = 1\<rparr>)
      (0 # replicate (2 ^ 62 - 1) 0 @ [0, 0])
    = Inr (Some (Some ErrIndexZero, map (\<lambda>k. ([int k], int k)) [0..<2 ^ 62]))"
proof -
  have "int (Suc (2 ^ 62 - 1)) = 2 ^ 62" by simp
  from overflow_run_steps [OF this assms] show ?thesis by simp
qed

section \<open>Claims about the traversal\<close>

text \<open>
  In the theorems below the visitor is a function of the point and the index it is handed
  (it does not write to the point); a schedule that gives every worker
  \<open>3 * Size() + NumThreads\<close> steps is long enough for the call to return, whatever the order
  of the steps; \<open>Inr None\<close> is the result of a schedule that ends while workers are still
  running.

  C1, as the code has it. A worker that has seen its visitor fail publishes the error
  after its batch, and from then on no worker claims a new batch. With the shape \<open>[2]\<close>,
  one worker, batches of one index and a visitor that fails on index 0, \<open>MapApplySafe\<close>
  returns that error after a single invocation: index 1 is never visited.

  Nor does the engine look for overflow. The dimensions \<open>[4, 2^62 - 1, 2^62 - 2]\<close> are
  accepted with \<open>Sizes = [4, -4, 8]\<close>. With one worker, batches of four indices and a
  visitor that never fails, the second batch starts from the point \<open>[0, 0, -1]\<close> that
  \<open>PointSafe(4)\<close> returns; the visitor is called on it, the next increment fails, and
  \<open>MapApplySafe\<close> returns a \<open>PointOutOfBoundsError\<close> with the indices 5, 6 and 7 not
  visited. With the single dimension \<open>2^63 - 1\<close>, whose size does fit, one worker and
  batches of \<open>2^62\<close> indices, the worker visits the indices below \<open>2^62\<close>; its second claim
  moves the shared index to \<open>2^62 + 2^62\<close>, which wraps to \<open>-2^63\<close>, \<open>PointSafe\<close> of that
  fails, and \<open>MapApplySafe\<close> returns \<open>ErrIndexZero\<close> with the indices from \<open>2^62\<close> on not
  visited. The schedule is the first claim, the \<open>2^62\<close> visits and the second claim.
\<close>

theorem MapApplySafe_failing_visitor_counterexample:
  "NewInterpreterSafe [2] = (\<lparr>Dims = [2], Sizes = [2]\<rparr>, None) \<and>
   Size \<lparr>Dims = [2], Sizes = [2]\<rparr> = Inr 2 \<and>
   MapApplySafe \<lparr>Dims = [2], Sizes = [2]\<rparr>
     (Some (\<lambda>p i. if i = 0 then Some (VisitorError 0) else None))
     (Some \<lparr>OpsPerThread = 1, NumThreads = 1\<rparr>) [0, 0, 0]
   = Inr (Some (Some (VisitorError 0), [([0], 0)])) \<and>
   NewInterpreterSafe [4, 2 ^ 62 - 1, 2 ^ 62 - 2] =
     (\<lparr>Dims = [4, 2 ^ 62 - 1, 2 ^ 62 - 2], Sizes = [4, - 4, 8]\<rparr>, None) \<and>
   Size \<lparr>Dims = [4, 2 ^ 62 - 1, 2 ^ 62 - 2], Sizes = [4, - 4, 8]\<rparr> = Inr 8 \<and>
   MapApplySafe \<lparr>Dims = [4, 2 ^ 62 - 1, 2 ^ 62 - 2], Sizes = [4, - 4, 8]\<rparr>
     (Some (\<lambda>p i. None))
     (Some \<lparr>OpsPerThread = 4, NumThreads = 1\<rparr>) [0, 0, 0, 0, 0, 0, 0, 0]
   = Inr (Some (Some (PointOutOfBoundsError [0, 0, - 1] [4, 2 ^ 62 - 1, 2 ^ 62 - 2] 2),
                [([0, 0, 0], 0), ([1, 0, 0], 1), ([2, 0, 0], 2), ([3, 0, 0], 3),
                 ([0, 0, - 1], 4)])) \<and>
   NewInterpreterSafe [2 ^ 63 - 1] = (\<lparr>Dims = [2 ^ 63 - 1], Sizes = [2 ^ 63 - 1]\<rparr>, None) \<and>
   Size \<lparr>Dims = [2 ^ 63 - 1], Sizes = [2 ^ 63 - 1]\<rparr> = Inr (2 ^ 63 - 1) \<and>
   MapApplySafe \<lparr>Dims = [2 ^ 63 - 1], Sizes = [2 ^ 63 - 1]\<rparr> (Some (\<lambda>p i. None))
     (Some \<lparr>OpsPerThread = 2 ^ 62, NumThreads = 1\<rparr>)
     (0 # replicate (2 ^ 62 - 1) 0 @ [0, 0])
   = Inr (Some (Some ErrIndexZero, map (\<lambda>k. ([int k], int k)) [0..<2 ^ 62]))"
proof -
  have "MapApplySafe \<lparr>Dims = [2 ^ 63 - 1], Sizes = [2 ^ 63 - 1]\<rparr> (Some (\<lambda>p i. None))
     (Some \<lparr>OpsPerThread = 2 ^ 62, NumThreads = 1\<rparr>)
     (0 # replicate (2 ^ 62 - 1) 0 @ [0, 0])
   = Inr (Some (Some ErrIndexZero, map (\<lambda>k. ([int k], int k)) [0..<2 ^ 62]))"
    by (rule overflow_run) simp
  moreover have "NewInterpreterSafe [2] = (\<lparr>Dims = [2], Sizes = [2]\<rparr>, None) \<and>
   Size \<lparr>Dims = [2], Sizes = [2]\<rparr> = Inr 2 \<and>
   MapApplySafe \<lparr>Dims = [2], Sizes = [2]\<rparr>
     (Some (\<lambda>p i. if i = 0 then Some (VisitorError 0) else None))
     (Some \<lparr>OpsPerThread = 1, NumThreads = 1\<rparr>) [0, 0, 0]
   = Inr (Some (Some (VisitorError 0), [([0], 0)])) \<and>
   NewInterpreterSafe [4, 2 ^ 62 - 1, 2 ^ 62 - 2] =
     (\<lparr>Dims = [4, 2 ^ 62 - 1, 2 ^ 62 - 2], Sizes = [4, - 4, 8]\<rparr>, None) \<and>
   Size \<lparr>Dims = [4, 2 ^ 62 - 1, 2 ^ 62 - 2], Sizes = [4, - 4, 8]\<rparr> = Inr 8 \<and>
   MapApplySafe \<lparr>Dims = [4, 2 ^ 62 - 1, 2 ^ 62 - 2], Sizes = [4, - 4, 8]\<rparr>
     (Some (\<lambda>p i. None))
     (Some \<lparr>OpsPerThread = 4, NumThreads = 1\<rparr>) [0, 0, 0, 0, 0, 0, 0, 0]
   = Inr (Some (Some (PointOutOfBoundsError [0, 0, - 1] [4, 2 ^ 62 - 1, 2 ^ 62 - 2] 2),
                [([0, 0, 0], 0), ([1, 0, 0], 1), ([2, 0, 0], 2), ([3, 0, 0], 3),
                 ([0, 0, - 1], 4)])) \<and>
   NewInterpreterSafe [2 ^ 63 - 1] = (\<lparr>Dims = [2 ^ 63 - 1], Sizes = [2 ^ 63 - 1]\<rparr>, None) \<and>
   Size \<lparr>Dims = [2 ^ 63 - 1], Sizes = [2 ^ 63 - 1]\<rparr> = Inr (2 ^ 63 - 1)"
    by code_simp
  ultimately show ?thesis by blast
qed

text \<open>
  C1, amended. Take a valid Interpreter whose size (the product of the dimensions) is
  below \<open>2^63\<close>, a threading configuration (nil included) for which the end of the last
  batch, the least multiple of \<open>OpsPerThread\<close> that is not below the size, is below \<open>2^63\<close>
  as well, and a non-nil visitor that does not write to the point. \<open>MapApplySafe\<close> does
  not panic and returns under every schedule that lets each worker run long enough.
  Whenever it returns, under whatever
  interleaving of the workers, no index has been visited twice, and the visitor has been
  invoked only on indices in \<open>[0, Size())\<close>, each time with the point of the index. If the
  visitor never reports a failure, the call returns nil and every index in \<open>[0, Size())\<close>
  has been visited exactly once.
\<close>

theorem MapApplySafe_exactly_once:
  "NewInterpreterSafe dims = (itp, None) \<Longrightarrow> prod_list dims < 2 ^ 63 \<Longrightarrow>
   fill_options itp options = Inr opts \<Longrightarrow>
   last_batch_end (prod_list dims) (OpsPerThread opts) < 2 ^ 63 \<Longrightarrow>
   Size itp = Inr (prod_list dims) \<and>
   (\<forall>sched.
      MapApplySafe itp (Some f) options sched = Inr None \<or>
      (\<exists>e cs. MapApplySafe itp (Some f) options sched = Inr (Some (e, cs)) \<and>
         (\<forall>i. count_list (map snd cs) i \<le> 1) \<and>
         (\<forall>c\<in>set cs. 0 \<le> snd c \<and> snd c < prod_list dims \<and>
            PointSafe itp (snd c) = Inr (fst c, None)) \<and>
         ((\<forall>p i. f p i = None) \<longrightarrow>
            e = None \<and>
            (\<forall>i. 0 \<le> i \<and> i < prod_list dims \<longrightarrow> count_list (map snd cs) i = 1)))) \<and>
   (\<forall>sched.
      (\<forall>t<nat (NumThreads opts).
         3 * nat (prod_list dims) + nat (NumThreads opts) \<le> count_list sched t) \<longrightarrow>
      MapApplySafe itp (Some f) options sched \<noteq> Inr None)"
proof -
  assume v: "NewInterpreterSafe dims = (itp, None)" and fits: "prod_list dims < 2 ^ 63"
    and fo': "fill_options itp options = Inr opts"
    and lb: "last_batch_end (prod_list dims) (OpsPerThread opts) < 2 ^ 63"
  have tf: "total dims < 2 ^ 63" using fits by (simp add: total_prod)
  have pos: "positive dims" and itp: "itp = interp_of dims"
    using v NewInterpreterSafe_iff [OF tf] by simp_all
  have fo: "fill_options (interp_of dims) options = Inr opts" using fo' by (simp add: itp)
  have ops: "1 \<le> OpsPerThread opts" and nt: "1 \<le> NumThreads opts"
    using fill_options_interp [OF pos fo] by simp_all
  have nov: "no_overflow dims opts" using tf lb by (simp add: no_overflow_def total_prod)
  let ?st0 = "initial (interp_of dims) opts"
  have sz: "Size itp = Inr (prod_list dims)"
    using pos by (simp add: itp Size_interp positive_def total_prod)
  have part1: "MapApplySafe itp (Some f) options sched = Inr None \<or>
      (\<exists>e cs. MapApplySafe itp (Some f) options sched = Inr (Some (e, cs)) \<and>
         (\<forall>i. count_list (map snd cs) i \<le> 1) \<and>
         (\<forall>c\<in>set cs. 0 \<le> snd c \<and> snd c < prod_list dims \<and>
            PointSafe itp (snd c) = Inr (fst c, None)) \<and>
         ((\<forall>p i. f p i = None) \<longrightarrow>
            e = None \<and>
            (\<forall>i. 0 \<le> i \<and> i < prod_list dims \<longrightarrow> count_list (map snd cs) i = 1)))" for sched
  proof -
    from visit_inv_run [OF pos ops nov visit_inv_initial [of dims opts], where sched = sched and f = f]
    obtain st' where
      r: "run_schedule False (interp_of dims) (Some f) opts sched ?st0 = Inr st'"
        "visit_inv dims opts st'"
      by blast
    from run_initial [OF pos ops nov, where f = f and sched = sched] r(1)
    have len: "length (workers st') = nat (NumThreads opts)"
      by simp
    show ?thesis
    proof (cases "all_returned st'")
      case False
      then show ?thesis using r(1) fo by (simp add: MapApplySafe_def generalMapApply_def itp)
    next
      case True
      have nonempty: "workers st' \<noteq> []" using len nt by auto
      have res: "MapApplySafe itp (Some f) options sched = Inr (Some (sharedErr st', calls st'))"
        using True r fo by (simp add: MapApplySafe_def generalMapApply_def itp)
      have cnt: "\<forall>i. count_list (map snd (calls st')) i \<le> 1"
        using visit_inv_final [OF r(2) True] by simp
      have pts: "\<forall>c\<in>set (calls st'). 0 \<le> snd c \<and> snd c < prod_list dims \<and>
          PointSafe itp (snd c) = Inr (fst c, None)"
        using r(2) PointSafe_interp [OF pos _ _ tf] by (auto simp: visit_inv_def itp total_prod)
      have quiet: "sharedErr st' = None \<and>
          (\<forall>i. 0 \<le> i \<and> i < prod_list dims \<longrightarrow> count_list (map snd (calls st')) i = 1)"
        if nofail: "\<forall>p i. f p i = None"
      proof -
        from once_inv_run [OF pos ops nov nofail once_inv_initial [of dims opts], where sched = sched]
        obtain st'' where
          "run_schedule False (interp_of dims) (Some f) opts sched ?st0 = Inr st''"
          "once_inv dims opts st''"
          by blast
        then have o: "once_inv dims opts st'" using r(1) by simp
        then show ?thesis
          using once_inv_final [OF o True nonempty] by (simp add: once_inv_def total_prod)
      qed
      show ?thesis
        using res cnt pts quiet
        by (intro disjI2 exI [of _ "sharedErr st'"] exI [of _ "calls st'"]) blast
    qed
  qed
  have part2: "MapApplySafe itp (Some f) options sched \<noteq> Inr None"
    if "\<forall>t<nat (NumThreads opts).
           3 * nat (prod_list dims) + nat (NumThreads opts) \<le> count_list sched t" for sched
    using run_initial [OF pos ops nov, where f = f and sched = sched] that fo
    by (auto simp: MapApplySafe_def generalMapApply_def itp total_prod)
  show ?thesis
    using sz part1 part2 by blast
qed

theorem MapApplySafe_exactly_once_witness:
  "\<exists>cs. MapApplySafe \<lparr>Dims = [2], Sizes = [2]\<rparr> (Some (\<lambda>p i. None))
          (Some \<lparr>OpsPerThread = 1, NumThreads = 2\<rparr>)
          [0, 1, 1, 0, 0, 1, 1, 0, 0, 1, 1, 0, 0, 1, 1, 0]
        = Inr (Some (None, cs)) \<and>
     count_list (map snd cs) 0 = 1 \<and> count_list (map snd cs) 1 = 1 \<and>
     count_list (map snd cs) 2 \<le> 1"
proof -
  let ?itp = "\<lparr>Dims = [2], Sizes = [2]\<rparr>"
  let ?o = "Some \<lparr>OpsPerThread = 1, NumThreads = 2\<rparr>"
  let ?opts = "\<lparr>OpsPerThread = 1, NumThreads = 2\<rparr>"
  let ?f = "\<lambda>(p :: int list) (i :: int). None :: error option"
  let ?sched = "[0, 1, 1, 0, 0, 1, 1, 0, 0, 1, 1, 0, 0, 1, 1, 0 :: nat]"
  have fits: "prod_list [2 :: int] < 2 ^ 63" by simp
  have fo: "fill_options ?itp ?o = Inr ?opts" by (simp add: fill_options_def)
  have lb: "last_batch_end (prod_list [2]) (OpsPerThread ?opts) < 2 ^ 63"
    by (simp add: last_batch_end_def)
  note inst = MapApplySafe_exactly_once [OF interp_2 fits fo lb, where f = ?f]
  have a: "MapApplySafe ?itp (Some ?f) ?o ?sched = Inr None \<or>
      (\<exists>e cs. MapApplySafe ?itp (Some ?f) ?o ?sched = Inr (Some (e, cs)) \<and>
         (\<forall>i. count_list (map snd cs) i \<le> 1) \<and>
         (\<forall>c\<in>set cs. 0 \<le> snd c \<and> snd c < prod_list [2] \<and>
            PointSafe ?itp (snd c) = Inr (fst c, None)) \<and>
         ((\<forall>p i. ?f p i = None) \<longrightarrow>
            e = None \<and>
            (\<forall>i. 0 \<le> i \<and> i < prod_list [2] \<longrightarrow> count_list (map snd cs) i = 1)))"
    using inst by blast
  have "\<forall>t<nat (NumThreads ?opts).
      3 * nat (prod_list [2]) + nat (NumThreads ?opts) \<le> count_list ?sched t"
    by (simp add: numeral_2_eq_2 All_less_Suc2)
  then have "MapApplySafe ?itp (Some ?f) ?o ?sched \<noteq> Inr None"
    using inst by blast
  then obtain e cs where
    c: "MapApplySafe ?itp (Some ?f) ?o ?sched = Inr (Some (e, cs))"
      "\<forall>i. count_list (map snd cs) i \<le> 1"
      "e = None \<and> (\<forall>i. 0 \<le> i \<and> i < prod_list [2] \<longrightarrow> count_list (map snd cs) i = 1)"
    using a by auto
  have "count_list (map snd cs) 0 = 1" "count_list (map snd cs) 1 = 1"
    using c(3) by simp_all
  then show ?thesis using c by (intro exI [of _ cs]) simp
qed

text \<open>
  C6, as the code has it. The inner loop assigns \<open>localErr\<close> at every failing call, so a
  later failure in the batch overwrites an earlier one. With the shape \<open>[2]\<close>, nil options
  (one batch) and a visitor that fails on index 0 and on index 1, the error returned is
  the one of index 1, not the first.

  With the dimensions \<open>[4, 2^62 - 1, 2^62 - 2]\<close>, whose product overflows, one worker,
  batches of four indices and a visitor that fails on the indices 4 and 5 of the second
  batch, the increment after index 4 fails: index 5 is not visited and the error returned
  is a \<open>PointOutOfBoundsError\<close>, none of the visitor's. With the single dimension
  \<open>2^63 - 1\<close>, whose size does fit, batches of \<open>2^62\<close> indices and a visitor that fails on
  the indices \<open>2^62\<close> and \<open>2^62 + 1\<close> of the second batch, the claim of that batch moves the
  shared index to \<open>2^62 + 2^62\<close>, which wraps to \<open>-2^63\<close>: the worker returns with
  \<open>ErrIndexZero\<close> and no index of the batch is visited.
\<close>

theorem MapApplySafe_last_failure_counterexample:
  "NewInterpreterSafe [2] = (\<lparr>Dims = [2], Sizes = [2]\<rparr>, None) \<and>
   fill_options \<lparr>Dims = [2], Sizes = [2]\<rparr> None = Inr \<lparr>OpsPerThread = 2, NumThreads = 1\<rparr> \<and>
   MapApplySafe \<lparr>Dims = [2], Sizes = [2]\<rparr>
     (Some (\<lambda>p i. if i = 0 then Some (VisitorError 0)
                   else if i = 1 then Some (VisitorError 1) else None))
     None [0, 0, 0, 0]
   = Inr (Some (Some (VisitorError 1), [([0], 0), ([1], 1)])) \<and>
   NewInterpreterSafe [4, 2 ^ 62 - 1, 2 ^ 62 - 2] =
     (\<lparr>Dims = [4, 2 ^ 62 - 1, 2 ^ 62 - 2], Sizes = [4, - 4, 8]\<rparr>, None) \<and>
   MapApplySafe \<lparr>Dims = [4, 2 ^ 62 - 1, 2 ^ 62 - 2], Sizes = [4, - 4, 8]\<rparr>
     (Some (\<lambda>p i. if i = 4 then Some (VisitorError 4)
                   else if i = 5 then Some (VisitorError 5) else None))
     (Some \<lparr>OpsPerThread = 4, NumThreads = 1\<rparr>) [0, 0, 0, 0, 0, 0, 0, 0]
   = Inr (Some (Some (PointOutOfBoundsError [0, 0, - 1] [4, 2 ^ 62 - 1, 2 ^ 62 - 2] 2),
                [([0, 0, 0], 0), ([1, 0, 0], 1), ([2, 0, 0], 2), ([3, 0, 0], 3),
                 ([0, 0, - 1], 4)])) \<and>
   NewInterpreterSafe [2 ^ 63 - 1] = (\<lparr>Dims = [2 ^ 63 - 1], Sizes = [2 ^ 63 - 1]\<rparr>, None) \<and>
   MapApplySafe \<lparr>Dims = [2 ^ 63 - 1], Sizes = [2 ^ 63 - 1]\<rparr>
     (Some (\<lambda>p i. if i = 2 ^ 62 then Some (VisitorError 0)
                   else if i = 2 ^ 62 + 1 then Some (VisitorError 1) else None))
     (Some \<lparr>OpsPerThread = 2 ^ 62, NumThreads = 1\<rparr>)
     (0 # replicate (2 ^ 62 - 1) 0 @ [0, 0])
   = Inr (Some (Some ErrIndexZero, map (\<lambda>k. ([int k], int k)) [0..<2 ^ 62]))"
proof -
  have "MapApplySafe \<lparr>Dims = [2 ^ 63 - 1], Sizes = [2 ^ 63 - 1]\<rparr>
     (Some (\<lambda>p i. if i = 2 ^ 62 then Some (VisitorError 0)
                   else if i = 2 ^ 62 + 1 then Some (VisitorError 1) else None))
     (Some \<lparr>OpsPerThread = 2 ^ 62, NumThreads = 1\<rparr>)
     (0 # replicate (2 ^ 62 - 1) 0 @ [0, 0])
   = Inr (Some (Some ErrIndexZero, map (\<lambda>k. ([int k], int k)) [0..<2 ^ 62]))"
    by (rule overflow_run) simp
  moreover have "NewInterpreterSafe [2] = (\<lparr>Dims = [2], Sizes = [2]\<rparr>, None) \<and>
   fill_options \<lparr>Dims = [2], Sizes = [2]\<rparr> None = Inr \<lparr>OpsPerThread = 2, NumThreads = 1\<rparr> \<and>
   MapApplySafe \<lparr>Dims = [2], Sizes = [2]\<rparr>
     (Some (\<lambda>p i. if i = 0 then Some (VisitorError 0)
                   else if i = 1 then Some (VisitorError 1) else None))
     None [0, 0, 0, 0]
   = Inr (Some (Some (VisitorError 1), [([0], 0), ([1], 1)])) \<and>
   NewInterpreterSafe [4, 2 ^ 62 - 1, 2 ^ 62 - 2] =
     (\<lparr>Dims = [4, 2 ^ 62 - 1, 2 ^ 62 - 2], Sizes = [4, - 4, 8]\<rparr>, None) \<and>
   MapApplySafe \<lparr>Dims = [4, 2 ^ 62 - 1, 2 ^ 62 - 2], Sizes = [4, - 4, 8]\<rparr>
     (Some (\<lambda>p i. if i = 4 then Some (VisitorError 4)
                   else if i = 5 then Some (VisitorError 5) else None))
     (Some \<lparr>OpsPerThread = 4, NumThreads = 1\<rparr>) [0, 0, 0, 0, 0, 0, 0, 0]
   = Inr (Some (Some (PointOutOfBoundsError [0, 0, - 1] [4, 2 ^ 62 - 1, 2 ^ 62 - 2] 2),
                [([0, 0, 0], 0), ([1, 0, 0], 1), ([2, 0, 0], 2), ([3, 0, 0], 3),
                 ([0, 0, - 1], 4)])) \<and>
   NewInterpreterSafe [2 ^ 63 - 1] = (\<lparr>Dims = [2 ^ 63 - 1], Sizes = [2 ^ 63 - 1]\<rparr>, None)"
    by code_simp
  ultimately show ?thesis by blast
qed

text \<open>
  C6, amended. Take a valid Interpreter whose size is below \<open>2^63\<close>, a threading
  configuration with a single worker for which the end of the last batch (the least
  multiple of \<open>OpsPerThread\<close> that is not below the size) is below \<open>2^63\<close> as well, and a
  visitor that does not write to the point and fails somewhere. Let \<open>j\<close> be the first
  index at which the visitor fails, and \<open>[bstart, bend)\<close> the batch that holds \<open>j\<close>. Whenever \<open>MapApplySafe\<close> returns, the visitor
  has been invoked on the indices \<open>0, \<dots>, bend - 1\<close> in this order and on nothing else (the
  whole batch is visited, no batch is started after it), and the error returned is the
  last failure of the visitor in that batch: the failure at the greatest failing index \<open>l\<close>
  of \<open>[bstart, bend)\<close>. The call returns under every schedule that lets the worker run long
  enough.
\<close>

theorem MapApplySafe_single_worker_failure:
  "NewInterpreterSafe dims = (itp, None) \<Longrightarrow> prod_list dims < 2 ^ 63 \<Longrightarrow>
   fill_options itp options = Inr opts \<Longrightarrow>
   last_batch_end (prod_list dims) (OpsPerThread opts) < 2 ^ 63 \<Longrightarrow> NumThreads opts = 1 \<Longrightarrow>
   0 \<le> j \<Longrightarrow> j < prod_list dims \<Longrightarrow> PointSafe itp j = Inr (pj, None) \<Longrightarrow> f pj j \<noteq> None \<Longrightarrow>
   (\<forall>i p. 0 \<le> i \<and> i < j \<and> PointSafe itp i = Inr (p, None) \<longrightarrow> f p i = None) \<Longrightarrow>
   bstart = (j div OpsPerThread opts) * OpsPerThread opts \<Longrightarrow>
   bend = min (bstart + OpsPerThread opts) (prod_list dims) \<Longrightarrow>
   (\<forall>sched. 3 * nat (prod_list dims) + 1 \<le> count_list sched 0 \<longrightarrow>
      MapApplySafe itp (Some f) options sched \<noteq> Inr None) \<and>
   (\<forall>sched.
      MapApplySafe itp (Some f) options sched = Inr None \<or>
      (\<exists>e cs l pl.
         MapApplySafe itp (Some f) options sched = Inr (Some (Some e, cs)) \<and>
         map snd cs = map int [0..<nat bend] \<and>
         (\<forall>c\<in>set cs. PointSafe itp (snd c) = Inr (fst c, None)) \<and>
         bstart \<le> l \<and> l < bend \<and> PointSafe itp l = Inr (pl, None) \<and> f pl l = Some e \<and>
         (\<forall>i p. l < i \<and> i < bend \<and> PointSafe itp i = Inr (p, None) \<longrightarrow> f p i = None)))"
proof -
  assume v: "NewInterpreterSafe dims = (itp, None)" and fits: "prod_list dims < 2 ^ 63"
    and fo': "fill_options itp options = Inr opts"
    and lb: "last_batch_end (prod_list dims) (OpsPerThread opts) < 2 ^ 63"
    and single: "NumThreads opts = 1"
    and j: "0 \<le> j" "j < prod_list dims" "PointSafe itp j = Inr (pj, None)" "f pj j \<noteq> None"
    and before: "\<forall>i p. 0 \<le> i \<and> i < j \<and> PointSafe itp i = Inr (p, None) \<longrightarrow> f p i = None"
    and bstart: "bstart = (j div OpsPerThread opts) * OpsPerThread opts"
    and bend: "bend = min (bstart + OpsPerThread opts) (prod_list dims)"
  have tf: "total dims < 2 ^ 63" using fits by (simp add: total_prod)
  have pos: "positive dims" and itp: "itp = interp_of dims"
    using v NewInterpreterSafe_iff [OF tf] by simp_all
  have nov: "no_overflow dims opts" using tf lb by (simp add: no_overflow_def total_prod)
  let ?ops = "OpsPerThread opts"
  let ?F = "\<lambda>i. f (decode dims i) i"
  have fo: "fill_options (interp_of dims) options = Inr opts" using fo' by (simp add: itp)
  have ops: "1 \<le> ?ops" using fill_options_interp [OF pos fo] by simp
  have ps: "PointSafe itp i = Inr (decode dims i, None)" if "0 \<le> i" "i < total dims" for i
    using PointSafe_interp [OF pos that tf] by (simp add: itp)
  have jt: "j < total dims" using j(2) by (simp add: total_prod)
  have Fj: "?F j \<noteq> None" using ps [OF j(1) jt] j(3,4) by simp
  have cleanj: "?F i = None" if "0 \<le> i" "i < j" for i
    using before ps [of i] that jt by simp
  have part1: "MapApplySafe itp (Some f) options sched \<noteq> Inr None"
    if "3 * nat (prod_list dims) + 1 \<le> count_list sched 0" for sched
    using run_initial [OF pos ops nov, where f = f and sched = sched] that fo single
    by (auto simp: MapApplySafe_def generalMapApply_def itp total_prod)
  have part2: "MapApplySafe itp (Some f) options sched = Inr None \<or>
      (\<exists>e cs l pl.
         MapApplySafe itp (Some f) options sched = Inr (Some (Some e, cs)) \<and>
         map snd cs = map int [0..<nat bend] \<and>
         (\<forall>c\<in>set cs. PointSafe itp (snd c) = Inr (fst c, None)) \<and>
         bstart \<le> l \<and> l < bend \<and> PointSafe itp l = Inr (pl, None) \<and> f pl l = Some e \<and>
         (\<forall>i p. l < i \<and> i < bend \<and> PointSafe itp i = Inr (p, None) \<longrightarrow> f p i = None))" for sched
  proof -
    from single_result [OF pos fo single nov, where f = f and sched = sched] obtain st where
      st: "single_inv dims f opts st"
        "MapApplySafe (interp_of dims) (Some f) options sched =
            Inr (if all_returned st then Some (sharedErr st, calls st) else None)"
      by auto
    show ?thesis
    proof (cases "all_returned st")
      case False
      then show ?thesis using st(2) by (simp add: itp)
    next
      case True
      let ?c = "int (length (calls st))"
      let ?x = "sharedIndex st"
      let ?bs = "?x - ?ops"
      have r: "wpc (workers st ! 0) = Returned" by (rule single_returned [OF st(1) True])
      have ord: "in_order dims (calls st)" and dv: "?ops dvd ?x"
        using st(1) by (simp_all add: single_inv_def)
      have err: "sharedErr st \<noteq> None"
      proof
        assume "sharedErr st = None"
        then have "clean dims f (total dims)" using st(1) r by (simp add: single_inv_def)
        then show False using Fj j(1) jt by (simp add: clean_def)
      qed
      then obtain e where e: "sharedErr st = Some e" by blast
      have c: "?c = min ?x (total dims)" and be: "batch_err dims f opts st (Some e)"
        using st(1) r err e by (simp_all add: single_inv_def)
      have b: "0 \<le> ?bs" "?bs \<le> ?c" "clean dims f ?bs"
        "last_failure ?F ?bs (nat (?c - ?bs)) = Some e"
        using be by (simp_all add: batch_err_def)
      from last_failure_Some [OF b(4)] obtain l' where
        l': "l' < nat (?c - ?bs)" "?F (?bs + int l') = Some e"
          "\<forall>k. l' < k \<and> k < nat (?c - ?bs) \<longrightarrow> ?F (?bs + int k) = None"
        by blast
      define l where "l = ?bs + int l'"
      have l: "?bs \<le> l" "l < ?c" "?F l = Some e" using l' by (simp_all add: l_def)
      have after: "?F i = None" if "l < i" "i < ?c" for i
      proof -
        have "l' < nat (i - ?bs) \<and> nat (i - ?bs) < nat (?c - ?bs)" "?bs + int (nat (i - ?bs)) = i"
          using that l(1) by (simp_all add: l_def)
        then show ?thesis using l'(3) by metis
      qed
      have "?bs \<le> j"
      proof (rule ccontr)
        assume "\<not> ?bs \<le> j"
        then have "?F j = None" using b(3) j(1) by (simp add: clean_def)
        then show False using Fj by simp
      qed
      moreover have "j \<le> l"
      proof (rule ccontr)
        assume "\<not> j \<le> l"
        then have "?F l = None" using cleanj [of l] l(1) b(1) by simp
        then show False using l(3) by simp
      qed
      moreover have "?c \<le> ?x" using c by simp
      ultimately have "(j div ?ops) * ?ops = ?bs"
        using l(2) dv ops by (intro block_start) simp_all
      then have bs: "bstart = ?bs" using bstart by simp
      then have cend: "?c = bend" using c bend by (simp add: total_prod)
      have ct: "?c \<le> total dims" using c by simp
      have calls: "map snd (calls st) = map int [0..<length (calls st)] \<and>
          (\<forall>c\<in>set (calls st). PointSafe (interp_of dims) (snd c) = Inr (fst c, None))"
        by (rule in_order_calls [OF pos ord ct tf])
      have len: "length (calls st) = nat bend" using cend by simp
      have lt: "0 \<le> l" "l < total dims" using l(1,2) b(1) ct by simp_all
      have "\<forall>i p. l < i \<and> i < bend \<and> PointSafe itp i = Inr (p, None) \<longrightarrow> f p i = None"
      proof (intro allI impI)
        fix i p assume a: "l < i \<and> i < bend \<and> PointSafe itp i = Inr (p, None)"
        then have "0 \<le> i" "i < total dims" using lt(1) cend ct by simp_all
        then have "p = decode dims i" using ps [of i] a by simp
        then show "f p i = None" using after [of i] a cend by simp
      qed
      moreover have "MapApplySafe itp (Some f) options sched = Inr (Some (Some e, calls st))"
        using st(2) True e by (simp add: itp)
      moreover have "bstart \<le> l" "l < bend" using l(1,2) bs cend by simp_all
      moreover have "PointSafe itp l = Inr (decode dims l, None)" using ps [OF lt] .
      ultimately have "\<exists>e cs l pl.
         MapApplySafe itp (Some f) options sched = Inr (Some (Some e, cs)) \<and>
         map snd cs = map int [0..<nat bend] \<and>
         (\<forall>c\<in>set cs. PointSafe itp (snd c) = Inr (fst c, None)) \<and>
         bstart \<le> l \<and> l < bend \<and> PointSafe itp l = Inr (pl, None) \<and> f pl l = Some e \<and>
         (\<forall>i p. l < i \<and> i < bend \<and> PointSafe itp i = Inr (p, None) \<longrightarrow> f p i = None)"
        using calls len l(3)
        by (intro exI [of _ e] exI [of _ "calls st"] exI [of _ l] exI [of _ "decode dims l"])
           (simp add: itp)
      then show ?thesis by (rule disjI2)
    qed
  qed
  show ?thesis using part1 part2 by blast
qed

theorem MapApplySafe_single_worker_failure_witness:
  "\<exists>e cs l pl.
     MapApplySafe \<lparr>Dims = [2], Sizes = [2]\<rparr>
       (Some (\<lambda>p i. if i = 0 then Some (VisitorError 0)
                     else if i = 1 then Some (VisitorError 1) else None))
       None [0, 0, 0, 0, 0, 0, 0] = Inr (Some (Some e, cs)) \<and>
     map snd cs = map int [0..<nat 2] \<and> 0 \<le> l \<and> l < 2 \<and>
     PointSafe \<lparr>Dims = [2], Sizes = [2]\<rparr> l = Inr (pl, None) \<and>
     (if l = 0 then Some (VisitorError 0) else if l = 1 then Some (VisitorError 1) else None) = Some e"
proof -
  let ?itp = "\<lparr>Dims = [2], Sizes = [2]\<rparr>"
  let ?f = "\<lambda>(p :: int list) (i :: int). if i = 0 then Some (VisitorError 0)
                     else if i = 1 then Some (VisitorError 1) else None"
  let ?sched = "[0, 0, 0, 0, 0, 0, 0 :: nat]"
  have fits: "prod_list [2 :: int] < 2 ^ 63" by simp
  have fo: "fill_options ?itp None = Inr \<lparr>OpsPerThread = 2, NumThreads = 1\<rparr>"
    by (simp add: fill_options_def Size_def)
  have lb: "last_batch_end (prod_list [2]) (OpsPerThread \<lparr>OpsPerThread = 2, NumThreads = 1\<rparr>) < 2 ^ 63"
    by (simp add: last_batch_end_def)
  have p0: "PointSafe ?itp 0 = Inr ([0], None)"
    by (simp add: PointSafe_def CheckIndex_def Size_def)
  have inst: "(\<forall>sched. 3 * nat (prod_list [2]) + 1 \<le> count_list sched 0 \<longrightarrow>
      MapApplySafe ?itp (Some ?f) None sched \<noteq> Inr None) \<and>
   (\<forall>sched.
      MapApplySafe ?itp (Some ?f) None sched = Inr None \<or>
      (\<exists>e cs l pl.
         MapApplySafe ?itp (Some ?f) None sched = Inr (Some (Some e, cs)) \<and>
         map snd cs = map int [0..<nat 2] \<and>
         (\<forall>c\<in>set cs. PointSafe ?itp (snd c) = Inr (fst c, None)) \<and>
         0 \<le> l \<and> l < 2 \<and> PointSafe ?itp l = Inr (pl, None) \<and> ?f pl l = Some e \<and>
         (\<forall>i p. l < i \<and> i < 2 \<and> PointSafe ?itp i = Inr (p, None) \<longrightarrow> ?f p i = None)))"
    by (rule MapApplySafe_single_worker_failure
          [where j = 0 and f = ?f, OF interp_2 fits fo lb _ _ _ p0])
       simp_all
  have "3 * nat (prod_list [2]) + 1 \<le> count_list ?sched 0" by simp
  then have "MapApplySafe ?itp (Some ?f) None ?sched \<noteq> Inr None"
    using inst by blast
  then show ?thesis using inst by blast
qed

text \<open>
  C8, as the code has it. With the dimensions \<open>[4, 2^62 - 1, 2^62 - 2]\<close>, whose product
  overflows, \<open>Size()\<close> is 8 and nil options give one worker with \<open>OpsPerThread = 8\<close>. A
  visitor that never fails is invoked on the indices \<open>0, \<dots>, 7\<close> in order and the call
  returns nil, but index 4 is visited with the point \<open>[0, 1, 0]\<close> that the increment gives,
  while \<open>PointSafe(4)\<close> returns \<open>[0, 0, -1]\<close>.
\<close>

theorem MapApplySafe_nil_options_counterexample:
  "NewInterpreterSafe [4, 2 ^ 62 - 1, 2 ^ 62 - 2] =
     (\<lparr>Dims = [4, 2 ^ 62 - 1, 2 ^ 62 - 2], Sizes = [4, - 4, 8]\<rparr>, None) \<and>
   fill_options \<lparr>Dims = [4, 2 ^ 62 - 1, 2 ^ 62 - 2], Sizes = [4, - 4, 8]\<rparr> None
     = Inr \<lparr>OpsPerThread = 8, NumThreads = 1\<rparr> \<and>
   MapApplySafe \<lparr>Dims = [4, 2 ^ 62 - 1, 2 ^ 62 - 2], Sizes = [4, - 4, 8]\<rparr>
     (Some (\<lambda>p i. None)) None [0, 0, 0, 0, 0, 0, 0, 0, 0, 0]
   = Inr (Some (None,
                [([0, 0, 0], 0), ([1, 0, 0], 1), ([2, 0, 0], 2), ([3, 0, 0], 3),
                 ([0, 1, 0], 4), ([1, 1, 0], 5), ([2, 1, 0], 6), ([3, 1, 0], 7)])) \<and>
   PointSafe \<lparr>Dims = [4, 2 ^ 62 - 1, 2 ^ 62 - 2], Sizes = [4, - 4, 8]\<rparr> 4
     = Inr ([0, 0, - 1], None)"
  by code_simp

text \<open>
  C8, amended. On a valid Interpreter whose size (the product of the dimensions) is below
  \<open>2^63\<close>, with nil threading options and a visitor that never fails and does not write
  to the point, \<open>MapApplySafe\<close> runs one worker with \<open>OpsPerThread = Size()\<close>; whenever it
  returns it returns nil and has
  invoked the visitor on the indices \<open>0, 1, \<dots>, Size() - 1\<close> in this order, once each, each
  time with the point that \<open>PointSafe\<close> gives for the index; and it returns under every
  schedule that lets the worker run long enough.
\<close>

theorem MapApplySafe_nil_options:
  "NewInterpreterSafe dims = (itp, None) \<Longrightarrow> prod_list dims < 2 ^ 63 \<Longrightarrow>
   \<forall>p i. f p i = None \<Longrightarrow>
   fill_options itp None = Inr \<lparr>OpsPerThread = prod_list dims, NumThreads = 1\<rparr> \<and>
   Size itp = Inr (prod_list dims) \<and>
   (\<forall>sched.
      MapApplySafe itp (Some f) None sched = Inr None \<or>
      (\<exists>cs. MapApplySafe itp (Some f) None sched = Inr (Some (None, cs)) \<and>
         map snd cs = map int [0..<nat (prod_list dims)] \<and>
         (\<forall>c\<in>set cs. PointSafe itp (snd c) = Inr (fst c, None)))) \<and>
   (\<forall>sched. 3 * nat (prod_list dims) + 1 \<le> count_list sched 0 \<longrightarrow>
      MapApplySafe itp (Some f) None sched \<noteq> Inr None)"
proof -
  assume v: "NewInterpreterSafe dims = (itp, None)" and fits: "prod_list dims < 2 ^ 63"
    and nofail: "\<forall>p i. f p i = None"
  have tf: "total dims < 2 ^ 63" using fits by (simp add: total_prod)
  have pos: "positive dims" and itp: "itp = interp_of dims"
    using v NewInterpreterSafe_iff [OF tf] by simp_all
  let ?opts = "\<lparr>OpsPerThread = prod_list dims, NumThreads = 1\<rparr>"
  have sz: "Size itp = Inr (prod_list dims)"
    using pos by (simp add: itp Size_interp positive_def total_prod)
  have fo: "fill_options (interp_of dims) None = Inr ?opts"
    using sz by (simp add: fill_options_def itp)
  have ops: "1 \<le> OpsPerThread ?opts" using fill_options_interp [OF pos fo] by blast
  have nov: "no_overflow dims ?opts"
    using tf last_batch_end_self [OF total_pos [OF pos]] by (simp add: no_overflow_def total_prod)
  have part1: "MapApplySafe itp (Some f) None sched = Inr None \<or>
      (\<exists>cs. MapApplySafe itp (Some f) None sched = Inr (Some (None, cs)) \<and>
         map snd cs = map int [0..<nat (prod_list dims)] \<and>
         (\<forall>c\<in>set cs. PointSafe itp (snd c) = Inr (fst c, None)))" for sched
  proof -
    from single_result [OF pos fo _ nov, where f = f and sched = sched] obtain st where
      st: "single_inv dims f ?opts st"
        "MapApplySafe (interp_of dims) (Some f) None sched =
            Inr (if all_returned st then Some (sharedErr st, calls st) else None)"
      by auto
    show ?thesis
    proof (cases "all_returned st")
      case False
      then show ?thesis using st(2) by (simp add: itp)
    next
      case True
      have r: "wpc (workers st ! 0) = Returned" by (rule single_returned [OF st(1) True])
      have noerr: "sharedErr st = None"
      proof (rule ccontr)
        assume "sharedErr st \<noteq> None"
        then have "batch_err dims f ?opts st (sharedErr st)"
          using st(1) r by (simp add: single_inv_def)
        then have "sharedErr st = None"
          using nofail by (simp add: batch_err_def last_failure_None)
        then show False using \<open>sharedErr st \<noteq> None\<close> by simp
      qed
      then have c: "int (length (calls st)) = total dims" and ord: "in_order dims (calls st)"
        using st(1) r by (simp_all add: single_inv_def)
      have "map snd (calls st) = map int [0..<length (calls st)] \<and>
          (\<forall>c\<in>set (calls st). PointSafe (interp_of dims) (snd c) = Inr (fst c, None))"
        using c tf by (intro in_order_calls [OF pos ord]) simp_all
      moreover have "length (calls st) = nat (prod_list dims)" using c by (simp add: total_prod)
      ultimately show ?thesis using st(2) True noerr by (simp add: itp)
    qed
  qed
  have part2: "MapApplySafe itp (Some f) None sched \<noteq> Inr None"
    if "3 * nat (prod_list dims) + 1 \<le> count_list sched 0" for sched
    using run_initial [OF pos ops nov, where f = f and sched = sched] that fo
    by (auto simp: MapApplySafe_def generalMapApply_def itp total_prod)
  show ?thesis using fo sz part1 part2 unfolding itp by blast
qed

theorem MapApplySafe_nil_options_witness:
  "\<exists>cs. MapApplySafe \<lparr>Dims = [2], Sizes = [2]\<rparr> (Some (\<lambda>p i. None)) None
          [0, 0, 0, 0, 0, 0, 0]
          = Inr (Some (None, cs)) \<and>
        map snd cs = [0, 1]"
proof -
  let ?itp = "\<lparr>Dims = [2], Sizes = [2]\<rparr>"
  let ?sched = "[0, 0, 0, 0, 0, 0, 0 :: nat]"
  have nf: "\<forall>p i. (\<lambda>p i. None :: error option) p i = None" by simp
  have fits: "prod_list [2 :: int] < 2 ^ 63" by simp
  note inst = MapApplySafe_nil_options [OF interp_2 fits nf]
  have "3 * nat (prod_list [2]) + 1 \<le> count_list ?sched 0" by simp
  then have "MapApplySafe ?itp (Some (\<lambda>p i. None)) None ?sched \<noteq> Inr None"
    using inst by blast
  moreover have "map int [0..<nat (prod_list [2])] = [0, 1]"
    by (simp add: upt_rec)
  ultimately show ?thesis using inst by fastforce
qed

end
